theory Spec2Isabelle
  imports Main "HOL-Library.Sublist"
begin

section \<open>Strings of the Go program\<close>

text \<open>
  A Go string is a sequence of bytes; it is modelled as \<open>string\<close> (a list of
  \<open>char\<close>, one per byte). The functions of this section are the ones
  \<open>docs-template-update.go\<close> imports from the Go standard library
  (\<open>strings\<close>, \<open>regexp\<close>, \<open>fmt\<close>), written out as far as the program uses them.
\<close>

subsection \<open>strings.Index and strings.Split\<close>

text \<open>
  \<open>strings.Index(s, sep)\<close> is the byte offset of the first occurrence of \<open>sep\<close> in
  \<open>s\<close>; Go returns \<open>-1\<close> when there is none, the model \<open>None\<close>.
\<close>

fun strings_Index :: "string \<Rightarrow> string \<Rightarrow> nat option" where
  "strings_Index [] sep = (if sep = [] then Some 0 else None)"
| "strings_Index (c # s) sep =
     (if prefix sep (c # s) then Some 0 else map_option Suc (strings_Index s sep))"

lemma strings_Index_bound:
  "strings_Index s sep = Some m \<Longrightarrow> m + length sep \<le> length s"
proof (induction s arbitrary: m)
  case Nil
  then show ?case by (simp split: if_splits)
next
  case (Cons c s)
  show ?case
  proof (cases "prefix sep (c # s)")
    case True
    with Cons.prems show ?thesis by (auto dest: prefix_length_le)
  next
    case False
    with Cons.prems obtain k where "strings_Index s sep = Some k" "m = Suc k"
      by auto
    with Cons.IH show ?thesis by fastforce
  qed
qed

text \<open>
  \<open>strings.Split(s, sep)\<close> cuts \<open>s\<close> at every occurrence of \<open>sep\<close>, found from the
  left and not overlapping, and drops the separators: \<open>n\<close> occurrences give \<open>n + 1\<close>
  parts. The program only splits on its two section headers. For an empty separator Go
  cuts after every UTF-8 sequence; the model cuts after every byte there, and no caller
  reaches that branch.
\<close>

function strings_Split :: "string \<Rightarrow> string \<Rightarrow> string list" where
  "strings_Split s sep =
     (if sep = [] then map (\<lambda>c. [c]) s
      else case strings_Index s sep of
             None \<Rightarrow> [s]
           | Some m \<Rightarrow> take m s # strings_Split (drop (m + length sep) s) sep)"
  by pat_completeness auto
termination
proof (relation "measure (\<lambda>(s, sep). length s)")
  show "wf (measure (\<lambda>(s, sep). length s))" by simp
next
  fix s sep :: string and m :: nat
  assume "sep \<noteq> []" and "strings_Index s sep = Some m"
  then have "m + length sep \<le> length s" and "0 < length sep"
    by (simp_all add: strings_Index_bound)
  then have "length (drop (m + length sep) s) < length s"
    by (simp only: length_drop)
  then show "((drop (m + length sep) s, sep), (s, sep)) \<in> measure (\<lambda>(s, sep). length s)"
    by simp
qed

declare strings_Split.simps [simp del]

subsection \<open>The two regular expressions\<close>

text \<open>
  Both patterns of the program have the shape literal, \<open>\s+\<close>, literal. A pattern is a
  list of such items and \<open>re_match\<close> matches it at the start of the input, returning the
  input left after the match. \<open>\s\<close> is the class of the five bytes tab, line feed, form
  feed, carriage return and space. \<open>\s+\<close> is greedy: it prefers to take one more byte and
  gives bytes back only when the rest of the pattern fails, which is the order Go's
  leftmost-first matching tries them in. The literals are ASCII, so matching bytes and
  matching UTF-8 code points agree.
\<close>

datatype re_item = Lit string | SpacePlus

definition isSpace :: "char \<Rightarrow> bool" where
  "isSpace c \<longleftrightarrow>
     c = CHR 0x09 \<or> c = CHR 0x0A \<or> c = CHR 0x0C \<or> c = CHR 0x0D \<or> c = CHR 0x20"

fun re_match :: "re_item list \<Rightarrow> string \<Rightarrow> string option" where
  "re_match [] s = Some s"
| "re_match (Lit l # re) s =
     (if prefix l s then re_match re (drop (length l) s) else None)"
| "re_match (SpacePlus # re) [] = None"
| "re_match (SpacePlus # re) (c # s) =
     (if isSpace c
      then (case re_match (SpacePlus # re) s of
              Some rest \<Rightarrow> Some rest
            | None \<Rightarrow> re_match re s)
      else None)"

text \<open>\<open>regexp.MustCompile(`\{\{fields\s+"data_stream_name"\}\}`)\<close> and its sibling.\<close>

definition fieldsPattern :: "re_item list" where
  "fieldsPattern = [Lit ''{{fields'', SpacePlus, Lit ''\"data_stream_name\"}}'']"

definition eventPattern :: "re_item list" where
  "eventPattern = [Lit ''{{event'', SpacePlus, Lit ''\"data_stream_name\"}}'']"

subsection \<open>Regexp.Expand: the dollar signs of a replacement\<close>

text \<open>
  \<open>ReplaceAllString\<close> does not insert its replacement as it is: a \<open>$\<close> in it starts a
  reference to a submatch, as in \<open>Regexp.Expand\<close>. \<open>extract_name\<close> reads the name after the
  \<open>$\<close>: the longest run of letters, digits and underscores, optionally in braces.

  For a byte below 128 the class is decided here. For a longer UTF-8 sequence Go decodes
  the code point and asks \<open>unicode.IsLetter\<close> and \<open>unicode.IsDigit\<close>; those tables are
  part of the Go runtime, so the model takes the answer as a parameter \<open>uni\<close>: for an
  input that starts with a byte of 128 or more, \<open>uni s\<close> is the number of bytes of the
  leading sequence when it is a letter or digit, and \<open>0\<close> when it is not.
\<close>

definition isDigit :: "char \<Rightarrow> bool" where
  "isDigit c \<longleftrightarrow> (48::nat) \<le> of_char c \<and> of_char c \<le> (57::nat)"

definition isAsciiNameByte :: "char \<Rightarrow> bool" where
  "isAsciiNameByte c \<longleftrightarrow>
     (let n = (of_char c :: nat)
      in (65 \<le> n \<and> n \<le> 90) \<or> (97 \<le> n \<and> n \<le> 122) \<or> (48 \<le> n \<and> n \<le> 57) \<or> n = 95)"

function nameLen :: "(string \<Rightarrow> nat) \<Rightarrow> string \<Rightarrow> nat" where
  "nameLen uni [] = 0"
| "nameLen uni (c # s) =
     (if (of_char c :: nat) < 128
      then (if isAsciiNameByte c then 1 + nameLen uni s else 0)
      else (if uni (c # s) = 0 then 0
            else uni (c # s) + nameLen uni (drop (uni (c # s)) (c # s))))"
  by pat_completeness auto
termination
  by (relation "measure (\<lambda>(uni, s). length s)") auto

text \<open>The number a name denotes, \<open>-1\<close> when it is not a number (or has nine digits).\<close>

fun parseNum :: "int \<Rightarrow> string \<Rightarrow> int" where
  "parseNum num [] = num"
| "parseNum num (c # cs) =
     (if \<not> isDigit c \<or> num \<ge> 100000000 then - 1
      else parseNum (num * 10 + (int (of_char c) - 48)) cs)"

definition extract_name :: "(string \<Rightarrow> nat) \<Rightarrow> string \<Rightarrow> (string \<times> int \<times> string) option" where
  "extract_name uni str0 =
     (if str0 = [] then None
      else
        let brace = (hd str0 = CHR ''{'');
            str = (if brace then tl str0 else str0);
            i = nameLen uni str
        in if i = 0 then None
           else if brace \<and> (i \<ge> length str \<or> str ! i \<noteq> CHR ''}'') then None
           else
             let name = take i str;
                 num = (if hd name = CHR ''0'' \<and> length name > 1 then - 1
                        else parseNum 0 name)
             in Some (name, num, drop (if brace then i + 1 else i) str))"

lemma extract_rest_length:
  "extract_name uni t = Some (name, num, rest) \<Longrightarrow> length rest \<le> length t"
  by (auto simp: extract_name_def Let_def split: if_splits)

text \<open>
  \<open>expand\<close> is \<open>Regexp.expand\<close> for a pattern without capture groups, which both patterns
  of the program are: \<open>$0\<close> and \<open>${0}\<close> stand for the matched text \<open>m\<close>, every other
  name or number for the empty string, \<open>$$\<close> for one dollar sign, and a \<open>$\<close> that no name
  follows stays.
\<close>

function expand :: "(string \<Rightarrow> nat) \<Rightarrow> string \<Rightarrow> string \<Rightarrow> string" where
  "expand uni [] m = []"
| "expand uni (c # t) m =
     (if c \<noteq> CHR ''$'' then c # expand uni t m
      else if t \<noteq> [] \<and> hd t = CHR ''$'' then CHR ''$'' # expand uni (tl t) m
      else case extract_name uni t of
             None \<Rightarrow> CHR ''$'' # expand uni t m
           | Some (name, num, rest) \<Rightarrow> (if num = 0 then m else []) @ expand uni rest m)"
  by pat_completeness auto
termination
  by (relation "measure (\<lambda>(uni, t, m). length t)")
     (auto simp: neq_Nil_conv dest: extract_rest_length)

subsection \<open>Regexp.ReplaceAllString\<close>

text \<open>
  The input is scanned from the left. Where the pattern matches, the expanded replacement
  is written and the scan goes on after the match; elsewhere one byte is copied. The two
  patterns never match the empty string (\<open>re_match_consumes\<close> below), so the last branch,
  for a match that consumes nothing, is never taken for them; what Go does with an empty
  match is not part of the model.
\<close>

function replaceAllString ::
  "(string \<Rightarrow> nat) \<Rightarrow> re_item list \<Rightarrow> string \<Rightarrow> string \<Rightarrow> string" where
  "replaceAllString uni re [] repl = []"
| "replaceAllString uni re (c # s) repl =
     (case re_match re (c # s) of
        None \<Rightarrow> c # replaceAllString uni re s repl
      | Some rest \<Rightarrow>
          if length rest \<le> length s
          then expand uni repl (take (length (c # s) - length rest) (c # s))
                 @ replaceAllString uni re rest repl
          else c # replaceAllString uni re s repl)"
  by pat_completeness auto
termination
  by (relation "measure (\<lambda>(uni, re, s, repl). length s)") auto

declare replaceAllString.simps(2) [simp del]

section \<open>The placeholder rewriter\<close>

text \<open>The four format strings of \<open>applyDataStreamPlaceholders\<close>, as \<open>fmt.Sprintf\<close> fills them.\<close>

definition fieldsPlaceholder :: "string \<Rightarrow> string" where
  "fieldsPlaceholder ds = ''{{fields \"'' @ ds @ ''\"}}''"

definition eventPlaceholder :: "string \<Rightarrow> string" where
  "eventPlaceholder ds = ''{{event \"'' @ ds @ ''\"}}''"

definition fieldsSection :: "string \<Rightarrow> string" where
  "fieldsSection ds =
     ''#### '' @ ds @ ''\<newline>\<newline>{{fields \"'' @ ds @ ''\"}}\<newline>\<newline>''"

definition eventSection :: "string \<Rightarrow> string" where
  "eventSection ds =
     ''#### '' @ ds @ ''\<newline>\<newline>{{event \"'' @ ds @ ''\"}}\<newline>\<newline>''"

text \<open>
  \<open>applyDataStreamPlaceholders(content, dataStreams)\<close>, branch by branch. The writes to
  the \<open>strings.Builder\<close> are the concatenation of what is written; the messages logged
  under \<open>verbose\<close> do not reach the result and are left out.
\<close>

definition applyDataStreamPlaceholders ::
  "(string \<Rightarrow> nat) \<Rightarrow> string \<Rightarrow> string list \<Rightarrow> string" where
  "applyDataStreamPlaceholders uni content dataStreams =
     (if length dataStreams = 0 then content
      else if length dataStreams = 1 then
        (let content' = replaceAllString uni fieldsPattern content
                          (fieldsPlaceholder (dataStreams ! 0))
         in replaceAllString uni eventPattern content' (eventPlaceholder (dataStreams ! 0)))
      else
        (let sections = strings_Split content ''### ECS field Reference'';
             sections = (if length sections \<noteq> 2
                         then strings_Split content ''### Sample Event'' else sections)
         in if length sections \<noteq> 2 then
              (let content' = replaceAllString uni fieldsPattern content
                                (fieldsPlaceholder (dataStreams ! 0))
               in replaceAllString uni eventPattern content'
                    (eventPlaceholder (dataStreams ! 0)))
            else
              (let eventSections = strings_Split (sections ! 1) ''### Sample Event''
               in sections ! 0 @ ''### ECS field Reference\<newline>\<newline>''
                  @ concat (map fieldsSection dataStreams)
                  @ (if length eventSections = 2
                     then ''### Sample Event\<newline>\<newline>''
                          @ concat (map eventSection dataStreams) @ eventSections ! 1
                     else sections ! 1))))"

section \<open>Entity discovery\<close>

text \<open>
  \<open>findDataStreams\<close> reads the file system through \<open>filepath.Join\<close>, \<open>os.Stat\<close> and
  \<open>os.ReadDir\<close>. The model takes the three as an environment: what \<open>os.Stat\<close> reports
  for a path (no error, or an error that \<open>os.IsNotExist\<close> recognises or does not), and
  the entries and the error \<open>os.ReadDir\<close> returns for it. A directory entry is its name
  and whether it is a directory.
\<close>

datatype os_error = ErrNotExist | ErrOther string

record dir_entry =
  Name :: string
  IsDir :: bool

record os_env =
  filepath_Join :: "string \<Rightarrow> string \<Rightarrow> string"
  os_Stat :: "string \<Rightarrow> os_error option"
  os_ReadDir :: "string \<Rightarrow> dir_entry list \<times> os_error option"

fun os_IsNotExist :: "os_error option \<Rightarrow> bool" where
  "os_IsNotExist (Some ErrNotExist) = True"
| "os_IsNotExist _ = False"

text \<open>The error of \<open>fmt.Errorf("failed to read data_stream directory: %w", err)\<close>.\<close>

datatype find_error = ReadDirFailed os_error

text \<open>The loop over the entries, appending the name of each directory.\<close>

fun collectDirs :: "string list \<Rightarrow> dir_entry list \<Rightarrow> string list" where
  "collectDirs dataStreams [] = dataStreams"
| "collectDirs dataStreams (entry # entries) =
     collectDirs (if IsDir entry then dataStreams @ [Name entry] else dataStreams) entries"

definition findDataStreams :: "os_env \<Rightarrow> string \<Rightarrow> find_error + string list" where
  "findDataStreams env pkgPath =
     (let dataStreamPath = filepath_Join env pkgPath ''data_stream''
      in if os_IsNotExist (os_Stat env dataStreamPath) then Inr []
         else case os_ReadDir env dataStreamPath of
                (entries, Some err) \<Rightarrow> Inl (ReadDirFailed err)
              | (entries, None) \<Rightarrow> Inr (collectDirs [] entries))"

section \<open>The patch generator\<close>

text \<open>
  \<open>generatePatch\<close> splits both documents at line feeds and hands the lines to
  \<open>difflib.GetUnifiedDiffString\<close> of \<open>github.com/pmezard/go-difflib\<close> with three lines
  of context. The library is a port of the sequence matcher of Python's \<open>difflib\<close>; this
  section follows its functions one by one.
\<close>

text \<open>
  A match is a triple: where it starts in \<open>a\<close>, where it starts in \<open>b\<close>, and its length.
  An opcode is a tag (\<open>r\<close>eplace, \<open>d\<close>elete, \<open>i\<close>nsert, \<open>e\<close>qual) with the ranges
  \<open>a[i1:i2]\<close> and \<open>b[j1:j2]\<close> it speaks of. Indices are Go \<open>int\<close>s that stay far below
  the word size; they are natural numbers here, and a difference the library only uses
  under \<open>max\<close> with a non-negative number is the truncated one.
\<close>

type_synonym Match = "nat \<times> nat \<times> nat"

datatype OpCode = OpCode char nat nat nat nat

text \<open>
  \<open>chainB\<close> builds \<open>b2j\<close>, the positions of every line in \<open>b\<close>. \<open>NewMatcher\<close> sets
  \<open>autoJunk\<close> and no \<open>IsJunk\<close> function: in a sequence of 200 lines or more a line that
  occurs more than \<open>n / 100 + 1\<close> times is dropped from the index, and no line is junk.
  A line without an entry reads as the empty list of positions, as a missing key of a Go
  map does.
\<close>

definition chainB :: "string list \<Rightarrow> string \<Rightarrow> nat list" where
  "chainB b s =
     (let indices = filter (\<lambda>j. b ! j = s) [0 ..< length b];
          n = length b
      in if n \<ge> 200 \<and> length indices > n div 100 + 1 then [] else indices)"

definition isBJunk :: "string \<Rightarrow> bool" where
  "isBJunk s = False"

text \<open>
  \<open>findLongestMatch\<close>: the two nested loops, then the four loops that extend the best
  match. \<open>scanRow\<close> is the inner loop for one \<open>i\<close>, with \<open>continue\<close> below \<open>blo\<close> and
  \<open>break\<close> from \<open>bhi\<close> on; \<open>j2len\<close> is a Go map read with default \<open>0\<close>, also at the key
  \<open>-1\<close>, so its keys are integers.
\<close>

fun scanRow ::
  "nat \<Rightarrow> nat \<Rightarrow> nat \<Rightarrow> (int \<Rightarrow> nat) \<Rightarrow> nat list
   \<Rightarrow> (int \<Rightarrow> nat) \<times> Match \<Rightarrow> (int \<Rightarrow> nat) \<times> Match" where
  "scanRow i blo bhi j2len [] st = st"
| "scanRow i blo bhi j2len (j # js) (newj2len, besti, bestj, bestsize) =
     (if j < blo then scanRow i blo bhi j2len js (newj2len, besti, bestj, bestsize)
      else if j \<ge> bhi then (newj2len, besti, bestj, bestsize)
      else
        let k = j2len (int j - 1) + 1
        in scanRow i blo bhi j2len js
             (newj2len(int j := k),
              if k > bestsize then (i + 1 - k, j + 1 - k, k) else (besti, bestj, bestsize)))"

fun scanRows ::
  "string list \<Rightarrow> (string \<Rightarrow> nat list) \<Rightarrow> nat \<Rightarrow> nat \<Rightarrow> nat list
   \<Rightarrow> (int \<Rightarrow> nat) \<times> Match \<Rightarrow> (int \<Rightarrow> nat) \<times> Match" where
  "scanRows a b2j blo bhi [] st = st"
| "scanRows a b2j blo bhi (i # is) (j2len, best) =
     scanRows a b2j blo bhi is (scanRow i blo bhi j2len (b2j (a ! i)) (\<lambda>_. 0, best))"

function extendBack ::
  "string list \<Rightarrow> string list \<Rightarrow> (string \<Rightarrow> bool) \<Rightarrow> nat \<Rightarrow> nat \<Rightarrow> Match \<Rightarrow> Match" where
  "extendBack a b p alo blo (besti, bestj, bestsize) =
     (if besti > alo \<and> bestj > blo \<and> p (b ! (bestj - 1)) \<and> a ! (besti - 1) = b ! (bestj - 1)
      then extendBack a b p alo blo (besti - 1, bestj - 1, bestsize + 1)
      else (besti, bestj, bestsize))"
  by pat_completeness auto
termination
  by (relation "measure (\<lambda>(a, b, p, alo, blo, besti, bestj, bestsize). besti)") auto

function extendForward ::
  "string list \<Rightarrow> string list \<Rightarrow> (string \<Rightarrow> bool) \<Rightarrow> nat \<Rightarrow> nat \<Rightarrow> Match \<Rightarrow> Match" where
  "extendForward a b p ahi bhi (besti, bestj, bestsize) =
     (if besti + bestsize < ahi \<and> bestj + bestsize < bhi \<and> p (b ! (bestj + bestsize))
         \<and> a ! (besti + bestsize) = b ! (bestj + bestsize)
      then extendForward a b p ahi bhi (besti, bestj, bestsize + 1)
      else (besti, bestj, bestsize))"
  by pat_completeness auto
termination
  by (relation "measure (\<lambda>(a, b, p, ahi, bhi, besti, bestj, bestsize). ahi - (besti + bestsize))") auto

declare extendBack.simps [simp del] extendForward.simps [simp del]

definition findLongestMatch ::
  "string list \<Rightarrow> string list \<Rightarrow> (string \<Rightarrow> nat list) \<Rightarrow> nat \<Rightarrow> nat \<Rightarrow> nat \<Rightarrow> nat \<Rightarrow> Match" where
  "findLongestMatch a b b2j alo ahi blo bhi =
     (let best = snd (scanRows a b2j blo bhi [alo ..< ahi] (\<lambda>_. 0, alo, blo, 0));
          best = extendBack a b (\<lambda>s. \<not> isBJunk s) alo blo best;
          best = extendForward a b (\<lambda>s. \<not> isBJunk s) ahi bhi best;
          best = extendBack a b isBJunk alo blo best;
          best = extendForward a b isBJunk ahi bhi best
      in best)"

text \<open>
  \<open>matchBlocks\<close> is the recursive closure of \<open>GetMatchingBlocks\<close>. Its recursion ends
  because \<open>findLongestMatch\<close> answers inside the window it was given; the model does not
  rely on that and gives \<open>None\<close> to a computation that does not return.
\<close>

partial_function (option) matchBlocks ::
  "string list \<Rightarrow> string list \<Rightarrow> (string \<Rightarrow> nat list) \<Rightarrow> nat \<Rightarrow> nat \<Rightarrow> nat \<Rightarrow> nat
   \<Rightarrow> Match list \<Rightarrow> Match list option" where
  "matchBlocks a b b2j alo ahi blo bhi matched =
     (case findLongestMatch a b b2j alo ahi blo bhi of (i, j, k) \<Rightarrow>
        if k > 0 then
          Option.bind
            (if alo < i \<and> blo < j then matchBlocks a b b2j alo i blo j matched
             else Some matched)
            (\<lambda>matched.
               if i + k < ahi \<and> j + k < bhi
               then matchBlocks a b b2j (i + k) ahi (j + k) bhi (matched @ [(i, j, k)])
               else Some (matched @ [(i, j, k)]))
        else Some matched)"

declare matchBlocks.simps [code]

text \<open>Adjacent matches are merged, and a sentinel of length \<open>0\<close> ends the list.\<close>

fun collapse :: "Match \<Rightarrow> Match list \<Rightarrow> Match list \<Rightarrow> Match list" where
  "collapse (i1, j1, k1) nonAdjacent [] =
     (if k1 > 0 then nonAdjacent @ [(i1, j1, k1)] else nonAdjacent)"
| "collapse (i1, j1, k1) nonAdjacent ((i2, j2, k2) # matched) =
     (if i1 + k1 = i2 \<and> j1 + k1 = j2 then collapse (i1, j1, k1 + k2) nonAdjacent matched
      else collapse (i2, j2, k2)
             (if k1 > 0 then nonAdjacent @ [(i1, j1, k1)] else nonAdjacent) matched)"

definition getMatchingBlocks :: "string list \<Rightarrow> string list \<Rightarrow> Match list option" where
  "getMatchingBlocks a b =
     map_option (\<lambda>matched. collapse (0, 0, 0) [] matched @ [(length a, length b, 0)])
       (matchBlocks a b (chainB b) 0 (length a) 0 (length b) [])"

text \<open>\<open>GetOpCodes\<close>, the loop over the matching blocks with its position \<open>(i, j)\<close>.\<close>

fun opCodesFrom :: "nat \<Rightarrow> nat \<Rightarrow> Match list \<Rightarrow> OpCode list" where
  "opCodesFrom i j [] = []"
| "opCodesFrom i j ((ai, bj, sz) # matching) =
     (if i < ai \<and> j < bj then [OpCode CHR ''r'' i ai j bj]
      else if i < ai then [OpCode CHR ''d'' i ai j bj]
      else if j < bj then [OpCode CHR ''i'' i ai j bj]
      else [])
     @ (if sz > 0 then [OpCode CHR ''e'' ai (ai + sz) bj (bj + sz)] else [])
     @ opCodesFrom (ai + sz) (bj + sz) matching"

definition getOpCodes :: "string list \<Rightarrow> string list \<Rightarrow> OpCode list option" where
  "getOpCodes a b = map_option (opCodesFrom 0 0) (getMatchingBlocks a b)"

text \<open>
  \<open>GetGroupedOpCodes(n)\<close>: an empty list of opcodes becomes one equal opcode, a leading
  and a trailing equal opcode are cut to \<open>n\<close> lines of context, and the opcodes are split
  into groups wherever more than \<open>2n\<close> equal lines separate two changes. A group that
  holds nothing but one equal opcode is not a group.
\<close>

fun tagOf :: "OpCode \<Rightarrow> char" where
  "tagOf (OpCode t i1 i2 j1 j2) = t"

fun fixLeading :: "nat \<Rightarrow> OpCode \<Rightarrow> OpCode" where
  "fixLeading n (OpCode t i1 i2 j1 j2) =
     (if t = CHR ''e'' then OpCode t (max i1 (i2 - n)) i2 (max j1 (j2 - n)) j2
      else OpCode t i1 i2 j1 j2)"

fun fixTrailing :: "nat \<Rightarrow> OpCode \<Rightarrow> OpCode" where
  "fixTrailing n (OpCode t i1 i2 j1 j2) =
     (if t = CHR ''e'' then OpCode t i1 (min i2 (i1 + n)) j1 (min j2 (j1 + n))
      else OpCode t i1 i2 j1 j2)"

fun groupLoop :: "nat \<Rightarrow> OpCode list list \<Rightarrow> OpCode list \<Rightarrow> OpCode list \<Rightarrow> OpCode list list" where
  "groupLoop n groups grp [] =
     (if length grp > 0 \<and> \<not> (length grp = 1 \<and> tagOf (grp ! 0) = CHR ''e'')
      then groups @ [grp] else groups)"
| "groupLoop n groups grp (OpCode t i1 i2 j1 j2 # codes) =
     (if t = CHR ''e'' \<and> i2 - i1 > n + n
      then groupLoop n
             (groups @ [grp @ [OpCode t i1 (min i2 (i1 + n)) j1 (min j2 (j1 + n))]])
             [OpCode t (max i1 (i2 - n)) i2 (max j1 (j2 - n)) j2] codes
      else groupLoop n groups (grp @ [OpCode t i1 i2 j1 j2]) codes)"

definition getGroupedOpCodes :: "string list \<Rightarrow> string list \<Rightarrow> nat \<Rightarrow> OpCode list list option" where
  "getGroupedOpCodes a b n =
     map_option
       (\<lambda>codes.
          let codes = (if length codes = 0 then [OpCode CHR ''e'' 0 1 0 1] else codes);
              codes = codes[0 := fixLeading n (codes ! 0)];
              codes = codes[length codes - 1 := fixTrailing n (codes ! (length codes - 1))]
          in groupLoop n [] [] codes)
       (getOpCodes a b)"

text \<open>
  \<open>WriteUnifiedDiff\<close>: the two file lines once, before the first group, and for every
  group its range line and its lines with their marks. The lines are written as they are;
  \<open>generatePatch\<close> passes lines without their line ends. Writes to a \<open>bytes.Buffer\<close> do
  not fail, so the error of \<open>GetUnifiedDiffString\<close> is always \<open>nil\<close> and the model returns
  the text alone.
\<close>

function showNat :: "nat \<Rightarrow> string" where
  "showNat n =
     (if n < 10 then [char_of (48 + n)] else showNat (n div 10) @ [char_of (48 + n mod 10)])"
  by pat_completeness auto
termination
  by (relation "measure id") auto

declare showNat.simps [simp del]

definition formatRangeUnified :: "nat \<Rightarrow> nat \<Rightarrow> string" where
  "formatRangeUnified start stop =
     (let beginning = start + 1;
          len = stop - start
      in if len = 1 then showNat beginning
         else showNat (if len = 0 then beginning - 1 else beginning) @ '','' @ showNat len)"

fun writeOpCode :: "string list \<Rightarrow> string list \<Rightarrow> OpCode \<Rightarrow> string" where
  "writeOpCode a b (OpCode t i1 i2 j1 j2) =
     (if t = CHR ''e'' then concat (map (\<lambda>line. '' '' @ line) (take (i2 - i1) (drop i1 a)))
      else
        (if t = CHR ''r'' \<or> t = CHR ''d''
         then concat (map (\<lambda>line. ''-'' @ line) (take (i2 - i1) (drop i1 a))) else [])
        @ (if t = CHR ''r'' \<or> t = CHR ''i''
           then concat (map (\<lambda>line. ''+'' @ line) (take (j2 - j1) (drop j1 b))) else []))"

fun firstI1 :: "OpCode \<Rightarrow> nat" where "firstI1 (OpCode t i1 i2 j1 j2) = i1"
fun firstJ1 :: "OpCode \<Rightarrow> nat" where "firstJ1 (OpCode t i1 i2 j1 j2) = j1"
fun lastI2 :: "OpCode \<Rightarrow> nat" where "lastI2 (OpCode t i1 i2 j1 j2) = i2"
fun lastJ2 :: "OpCode \<Rightarrow> nat" where "lastJ2 (OpCode t i1 i2 j1 j2) = j2"

definition writeGroup :: "string list \<Rightarrow> string list \<Rightarrow> OpCode list \<Rightarrow> string" where
  "writeGroup a b g =
     ''@@ -'' @ formatRangeUnified (firstI1 (g ! 0)) (lastI2 (g ! (length g - 1)))
     @ '' +'' @ formatRangeUnified (firstJ1 (g ! 0)) (lastJ2 (g ! (length g - 1)))
     @ '' @@\<newline>'' @ concat (map (writeOpCode a b) g)"

definition getUnifiedDiffString ::
  "string list \<Rightarrow> string list \<Rightarrow> string \<Rightarrow> string \<Rightarrow> nat \<Rightarrow> string option" where
  "getUnifiedDiffString a b fromFile toFile context =
     map_option
       (\<lambda>groups.
          (if groups = [] then []
           else (if fromFile \<noteq> [] \<or> toFile \<noteq> []
                 then ''--- '' @ fromFile @ ''\<newline>'' @ ''+++ '' @ toFile @ ''\<newline>'' else []))
          @ concat (map (writeGroup a b) groups))
       (getGroupedOpCodes a b context)"

text \<open>\<open>filepath.Base\<close> with the separator \<open>/\<close>, and the patch generator of the program.\<close>

definition filepath_Base :: "string \<Rightarrow> string" where
  "filepath_Base path =
     (if path = [] then ''.''
      else
        let path = rev (dropWhile (\<lambda>c. c = CHR ''/'') (rev path));
            path = rev (takeWhile (\<lambda>c. c \<noteq> CHR ''/'') (rev path))
        in if path = [] then ''/'' else path)"

definition generatePatch :: "string \<Rightarrow> string \<Rightarrow> string \<Rightarrow> string option" where
  "generatePatch filePath original updated =
     (let fromLines = strings_Split original ''\<newline>'';
          toLines = strings_Split updated ''\<newline>''
      in getUnifiedDiffString fromLines toLines
           (''a/'' @ filepath_Base filePath) (''b/'' @ filepath_Base filePath) 3)"

section \<open>The empty entity set\<close>

text \<open>
  Claim C3. With no data stream the rewriter returns the document it was given, whatever
  the document is.
\<close>

theorem rewrite_no_entities:
  "applyDataStreamPlaceholders uni d [] = d"
  by (simp add: applyDataStreamPlaceholders_def)

section \<open>Two or more entities\<close>

text \<open>
  With two or more data streams the document is cut at a section header. \<open>sectionsOf\<close>
  names the value the variable \<open>sections\<close> holds after lines 152 to 155 of the source:
  the parts around \<open>### ECS field Reference\<close> when there are exactly two of them, and the
  parts around \<open>### Sample Event\<close> otherwise.
\<close>

definition sectionsOf :: "string \<Rightarrow> string list" where
  "sectionsOf content =
     (if length (strings_Split content ''### ECS field Reference'') \<noteq> 2
      then strings_Split content ''### Sample Event''
      else strings_Split content ''### ECS field Reference'')"

lemma rewrite_many_unfold:
  assumes "2 \<le> length dataStreams"
  shows "applyDataStreamPlaceholders uni content dataStreams =
     (if length (sectionsOf content) \<noteq> 2 then
        replaceAllString uni eventPattern
          (replaceAllString uni fieldsPattern content (fieldsPlaceholder (dataStreams ! 0)))
          (eventPlaceholder (dataStreams ! 0))
      else
        sectionsOf content ! 0 @ ''### ECS field Reference\<newline>\<newline>''
        @ concat (map fieldsSection dataStreams)
        @ (if length (strings_Split (sectionsOf content ! 1) ''### Sample Event'') = 2
           then ''### Sample Event\<newline>\<newline>'' @ concat (map eventSection dataStreams)
                @ strings_Split (sectionsOf content ! 1) ''### Sample Event'' ! 1
           else sectionsOf content ! 1))"
proof -
  from assms have "length dataStreams \<noteq> 0" and "length dataStreams \<noteq> 1"
    by auto
  then show ?thesis
    unfolding applyDataStreamPlaceholders_def sectionsOf_def Let_def
    by (simp only: if_False)
qed

lemma sectionsOf_preferred:
  "strings_Split content ''### ECS field Reference'' = [pre, rest]
   \<Longrightarrow> sectionsOf content = [pre, rest]"
  by (simp add: sectionsOf_def)

lemma sectionsOf_fallback:
  "length (strings_Split content ''### ECS field Reference'') \<noteq> 2
   \<Longrightarrow> sectionsOf content = strings_Split content ''### Sample Event''"
  by (simp add: sectionsOf_def)

text \<open>
  Claim C2. Two or more entities, a document that splits into exactly two parts on
  \<open>### ECS field Reference\<close>, and a remainder that splits into exactly two parts on
  \<open>### Sample Event\<close>: the output is the text before the first header, the fields header,
  one block per entity in the order of the entity set (a heading naming the entity and its
  fields placeholder), the sample event header, one block per entity in the same order
  (heading and event placeholder), and the text that followed the sample event header.
\<close>

theorem rewrite_both_headers:
  assumes "2 \<le> length dataStreams"
    and "strings_Split d ''### ECS field Reference'' = [pre, rest]"
    and "strings_Split rest ''### Sample Event'' = [mid, post]"
  shows "applyDataStreamPlaceholders uni d dataStreams =
           pre @ ''### ECS field Reference\<newline>\<newline>''
           @ concat (map (\<lambda>e. ''#### '' @ e @ ''\<newline>\<newline>{{fields \"'' @ e @ ''\"}}\<newline>\<newline>'')
                       dataStreams)
           @ ''### Sample Event\<newline>\<newline>''
           @ concat (map (\<lambda>e. ''#### '' @ e @ ''\<newline>\<newline>{{event \"'' @ e @ ''\"}}\<newline>\<newline>'')
                       dataStreams)
           @ post"
proof -
  have sec: "sectionsOf d = [pre, rest]"
    using assms(2) by (rule sectionsOf_preferred)
  have f: "fieldsSection = (\<lambda>e. ''#### '' @ e @ ''\<newline>\<newline>{{fields \"'' @ e @ ''\"}}\<newline>\<newline>'')"
    by (rule ext) (simp add: fieldsSection_def)
  have e: "eventSection = (\<lambda>e. ''#### '' @ e @ ''\<newline>\<newline>{{event \"'' @ e @ ''\"}}\<newline>\<newline>'')"
    by (rule ext) (simp add: eventSection_def)
  show ?thesis
    unfolding rewrite_many_unfold [OF assms(1)] sec f e
    by (simp add: assms(3))
qed

theorem rewrite_both_headers_witness:
  "applyDataStreamPlaceholders (\<lambda>_. 0)
     ''intro\<newline>### ECS field Reference\<newline>old fields\<newline>### Sample Event\<newline>tail''
     [''a'', ''b'']
   = ''intro\<newline>'' @ ''### ECS field Reference\<newline>\<newline>''
     @ concat (map (\<lambda>e. ''#### '' @ e @ ''\<newline>\<newline>{{fields \"'' @ e @ ''\"}}\<newline>\<newline>'')
                 [''a'', ''b''])
     @ ''### Sample Event\<newline>\<newline>''
     @ concat (map (\<lambda>e. ''#### '' @ e @ ''\<newline>\<newline>{{event \"'' @ e @ ''\"}}\<newline>\<newline>'')
                 [''a'', ''b''])
     @ ''\<newline>tail''"
proof -
  have n: "2 \<le> length [''a'', ''b'']"
    by simp
  have s1: "strings_Split
              ''intro\<newline>### ECS field Reference\<newline>old fields\<newline>### Sample Event\<newline>tail''
              ''### ECS field Reference''
            = [''intro\<newline>'', ''\<newline>old fields\<newline>### Sample Event\<newline>tail'']"
    by code_simp
  have s2: "strings_Split ''\<newline>old fields\<newline>### Sample Event\<newline>tail'' ''### Sample Event''
            = [''\<newline>old fields\<newline>'', ''\<newline>tail'']"
    by code_simp
  show ?thesis
    by (rule rewrite_both_headers [OF n s1 s2])
qed

text \<open>
  Claim C4. Two or more entities and a document that gives exactly two parts on neither
  header: the result is the one the single-entity branch gives for the first entity alone.
  The rewriter is a function of the document and the entity set (the \<open>verbose\<close> flag only
  adds a log line), so equal inputs give equal outputs.
\<close>

theorem rewrite_no_header_uses_first:
  assumes "2 \<le> length dataStreams"
    and "length (strings_Split d ''### ECS field Reference'') \<noteq> 2"
    and "length (strings_Split d ''### Sample Event'') \<noteq> 2"
  shows "applyDataStreamPlaceholders uni d dataStreams
         = applyDataStreamPlaceholders uni d [dataStreams ! 0]"
proof -
  have "length (sectionsOf d) \<noteq> 2"
    using assms(2,3) by (simp add: sectionsOf_def)
  then have "applyDataStreamPlaceholders uni d dataStreams =
      replaceAllString uni eventPattern
        (replaceAllString uni fieldsPattern d (fieldsPlaceholder (dataStreams ! 0)))
        (eventPlaceholder (dataStreams ! 0))"
    by (simp add: rewrite_many_unfold [OF assms(1)])
  also have "\<dots> = applyDataStreamPlaceholders uni d [dataStreams ! 0]"
    by (simp add: applyDataStreamPlaceholders_def)
  finally show ?thesis .
qed

theorem rewrite_no_header_uses_first_witness:
  "applyDataStreamPlaceholders (\<lambda>_. 0) ''# Title\<newline>{{fields \"data_stream_name\"}}\<newline>'' [''x'', ''y'', ''z'']
   = applyDataStreamPlaceholders (\<lambda>_. 0) ''# Title\<newline>{{fields \"data_stream_name\"}}\<newline>''
       [[''x'', ''y'', ''z''] ! 0]"
proof -
  have n: "2 \<le> length [''x'', ''y'', ''z'']"
    by simp
  have s1: "length (strings_Split ''# Title\<newline>{{fields \"data_stream_name\"}}\<newline>''
              ''### ECS field Reference'') \<noteq> 2"
    by code_simp
  have s2: "length (strings_Split ''# Title\<newline>{{fields \"data_stream_name\"}}\<newline>''
              ''### Sample Event'') \<noteq> 2"
    by code_simp
  show ?thesis
    by (rule rewrite_no_header_uses_first [OF n s1 s2])
qed

text \<open>
  Claim C6. Two or more entities, a first split that gives exactly two parts (on the
  preferred header, or on \<open>### Sample Event\<close> when the preferred header did not), and a
  remainder that does not split into exactly two parts on \<open>### Sample Event\<close>: after the
  blocks of the fields placeholders the remainder is appended as it is, so a generic event
  placeholder in it stays generic.
\<close>

theorem rewrite_remainder_kept:
  assumes "2 \<le> length dataStreams"
    and "strings_Split d ''### ECS field Reference'' = [pre, rest]
         \<or> (length (strings_Split d ''### ECS field Reference'') \<noteq> 2
            \<and> strings_Split d ''### Sample Event'' = [pre, rest])"
    and "length (strings_Split rest ''### Sample Event'') \<noteq> 2"
  shows "applyDataStreamPlaceholders uni d dataStreams =
           pre @ ''### ECS field Reference\<newline>\<newline>''
           @ concat (map (\<lambda>e. ''#### '' @ e @ ''\<newline>\<newline>{{fields \"'' @ e @ ''\"}}\<newline>\<newline>'')
                       dataStreams)
           @ rest"
proof -
  have sec: "sectionsOf d = [pre, rest]"
    using assms(2) by (auto simp: sectionsOf_preferred sectionsOf_fallback)
  have f: "fieldsSection = (\<lambda>e. ''#### '' @ e @ ''\<newline>\<newline>{{fields \"'' @ e @ ''\"}}\<newline>\<newline>'')"
    by (rule ext) (simp add: fieldsSection_def)
  show ?thesis
    unfolding rewrite_many_unfold [OF assms(1)] sec f
    using assms(3) by simp
qed

theorem rewrite_remainder_kept_witness:
  "applyDataStreamPlaceholders (\<lambda>_. 0)
     ''intro\<newline>### ECS field Reference\<newline>{{event \"data_stream_name\"}}\<newline>'' [''a'', ''b'']
   = ''intro\<newline>'' @ ''### ECS field Reference\<newline>\<newline>''
     @ concat (map (\<lambda>e. ''#### '' @ e @ ''\<newline>\<newline>{{fields \"'' @ e @ ''\"}}\<newline>\<newline>'')
                 [''a'', ''b''])
     @ ''\<newline>{{event \"data_stream_name\"}}\<newline>''
   \<and> applyDataStreamPlaceholders (\<lambda>_. 0)
     ''intro\<newline>### Sample Event\<newline>{{event \"data_stream_name\"}}\<newline>'' [''a'', ''b'']
   = ''intro\<newline>'' @ ''### ECS field Reference\<newline>\<newline>''
     @ concat (map (\<lambda>e. ''#### '' @ e @ ''\<newline>\<newline>{{fields \"'' @ e @ ''\"}}\<newline>\<newline>'')
                 [''a'', ''b''])
     @ ''\<newline>{{event \"data_stream_name\"}}\<newline>''"
proof
  have n: "2 \<le> length [''a'', ''b'']"
    by simp
  have s1: "strings_Split ''intro\<newline>### ECS field Reference\<newline>{{event \"data_stream_name\"}}\<newline>''
              ''### ECS field Reference''
            = [''intro\<newline>'', ''\<newline>{{event \"data_stream_name\"}}\<newline>'']"
    by code_simp
  have s2: "length (strings_Split ''\<newline>{{event \"data_stream_name\"}}\<newline>'' ''### Sample Event'') \<noteq> 2"
    by code_simp
  show "applyDataStreamPlaceholders (\<lambda>_. 0)
     ''intro\<newline>### ECS field Reference\<newline>{{event \"data_stream_name\"}}\<newline>'' [''a'', ''b'']
   = ''intro\<newline>'' @ ''### ECS field Reference\<newline>\<newline>''
     @ concat (map (\<lambda>e. ''#### '' @ e @ ''\<newline>\<newline>{{fields \"'' @ e @ ''\"}}\<newline>\<newline>'')
                 [''a'', ''b''])
     @ ''\<newline>{{event \"data_stream_name\"}}\<newline>''"
    by (rule rewrite_remainder_kept [OF n disjI1 [OF s1] s2])
next
  have n: "2 \<le> length [''a'', ''b'']"
    by simp
  have s0: "length (strings_Split ''intro\<newline>### Sample Event\<newline>{{event \"data_stream_name\"}}\<newline>''
              ''### ECS field Reference'') \<noteq> 2"
    by code_simp
  have s1: "strings_Split ''intro\<newline>### Sample Event\<newline>{{event \"data_stream_name\"}}\<newline>''
              ''### Sample Event''
            = [''intro\<newline>'', ''\<newline>{{event \"data_stream_name\"}}\<newline>'']"
    by code_simp
  have s2: "length (strings_Split ''\<newline>{{event \"data_stream_name\"}}\<newline>'' ''### Sample Event'') \<noteq> 2"
    by code_simp
  show "applyDataStreamPlaceholders (\<lambda>_. 0)
     ''intro\<newline>### Sample Event\<newline>{{event \"data_stream_name\"}}\<newline>'' [''a'', ''b'']
   = ''intro\<newline>'' @ ''### ECS field Reference\<newline>\<newline>''
     @ concat (map (\<lambda>e. ''#### '' @ e @ ''\<newline>\<newline>{{fields \"'' @ e @ ''\"}}\<newline>\<newline>'')
                 [''a'', ''b''])
     @ ''\<newline>{{event \"data_stream_name\"}}\<newline>''"
    by (rule rewrite_remainder_kept [OF n disjI2 [OF conjI [OF s0 s1]] s2])
qed

text \<open>
  Claim C5 says that the header written back is the header the split consumed. Line 170
  of the source writes \<open>### ECS field Reference\<close> in every case. A document with the
  sample event header only is split on that header, which is consumed and not written
  back; the fields header appears in its place and the text of the sample event section
  follows the last fields block.
\<close>

theorem rewrite_fallback_header_lost:
  "applyDataStreamPlaceholders uni
     ''intro\<newline>### Sample Event\<newline>{{event \"data_stream_name\"}}\<newline>'' [''a'', ''b'']
   = ''intro\<newline>### ECS field Reference\<newline>\<newline>#### a\<newline>\<newline>{{fields \"a\"}}\<newline>\<newline>#### b\<newline>\<newline>{{fields \"b\"}}\<newline>\<newline>\<newline>{{event \"data_stream_name\"}}\<newline>''"
  by code_simp

section \<open>What discovery returns\<close>

lemma collectDirs_filter:
  "collectDirs acc entries = acc @ map Name (filter IsDir entries)"
  by (induction entries arbitrary: acc) simp_all

text \<open>
  Claim C8. When the \<open>data_stream\<close> subdirectory of the base path is absent the result is
  the empty entity set and no error. When it is there and can be listed the result is the
  names of the entries that are directories, in the order of the listing; entries that are
  not directories are left out.
\<close>

theorem discover_absent_or_listed:
  "(os_Stat env (filepath_Join env basePath ''data_stream'') = Some ErrNotExist
      \<longrightarrow> findDataStreams env basePath = Inr [])
   \<and> (os_Stat env (filepath_Join env basePath ''data_stream'') \<noteq> Some ErrNotExist
      \<longrightarrow> os_ReadDir env (filepath_Join env basePath ''data_stream'') = (entries, None)
      \<longrightarrow> findDataStreams env basePath = Inr (map Name (filter IsDir entries)))"
proof (intro conjI impI)
  assume "os_Stat env (filepath_Join env basePath ''data_stream'') = Some ErrNotExist"
  then show "findDataStreams env basePath = Inr []"
    by (simp add: findDataStreams_def)
next
  assume present: "os_Stat env (filepath_Join env basePath ''data_stream'') \<noteq> Some ErrNotExist"
    and listed: "os_ReadDir env (filepath_Join env basePath ''data_stream'') = (entries, None)"
  from present have "\<not> os_IsNotExist (os_Stat env (filepath_Join env basePath ''data_stream''))"
    by (cases "os_Stat env (filepath_Join env basePath ''data_stream'')" rule: os_IsNotExist.cases)
       simp_all
  with listed show "findDataStreams env basePath = Inr (map Name (filter IsDir entries))"
    by (simp add: findDataStreams_def collectDirs_filter)
qed

theorem discover_absent_or_listed_witness:
  "findDataStreams
     \<lparr>filepath_Join = (\<lambda>a b. a @ ''/'' @ b),
      os_Stat = (\<lambda>p. Some ErrNotExist),
      os_ReadDir = (\<lambda>p. ([], Some ErrNotExist))\<rparr> ''pkg'' = Inr []
   \<and> findDataStreams
     \<lparr>filepath_Join = (\<lambda>a b. a @ ''/'' @ b),
      os_Stat = (\<lambda>p. None),
      os_ReadDir = (\<lambda>p. ([\<lparr>Name = ''x'', IsDir = True\<rparr>,
                             \<lparr>Name = ''notes.txt'', IsDir = False\<rparr>,
                             \<lparr>Name = ''y'', IsDir = True\<rparr>], None))\<rparr> ''pkg''
     = Inr [''x'', ''y'']"
proof
  let ?absent = "\<lparr>filepath_Join = (\<lambda>a b. a @ ''/'' @ b),
                  os_Stat = (\<lambda>p. Some ErrNotExist),
                  os_ReadDir = (\<lambda>p. ([], Some ErrNotExist))\<rparr>"
  have "os_Stat ?absent (filepath_Join ?absent ''pkg'' ''data_stream'') = Some ErrNotExist"
    by simp
  with discover_absent_or_listed [of ?absent "''pkg''"]
  show "findDataStreams ?absent ''pkg'' = Inr []"
    by blast
next
  let ?entries = "[\<lparr>Name = ''x'', IsDir = True\<rparr>,
                   \<lparr>Name = ''notes.txt'', IsDir = False\<rparr>,
                   \<lparr>Name = ''y'', IsDir = True\<rparr>]"
  let ?listed = "\<lparr>filepath_Join = (\<lambda>a b. a @ ''/'' @ b),
                  os_Stat = (\<lambda>p. None),
                  os_ReadDir = (\<lambda>p. (?entries, None))\<rparr>"
  have present: "os_Stat ?listed (filepath_Join ?listed ''pkg'' ''data_stream'') \<noteq> Some ErrNotExist"
    by simp
  have listing: "os_ReadDir ?listed (filepath_Join ?listed ''pkg'' ''data_stream'') = (?entries, None)"
    by simp
  from discover_absent_or_listed [of ?listed "''pkg''" ?entries] present listing
  have "findDataStreams ?listed ''pkg'' = Inr (map Name (filter IsDir ?entries))"
    by blast
  then show "findDataStreams ?listed ''pkg'' = Inr [''x'', ''y'']"
    by simp
qed

text \<open>
  When the subdirectory is there and \<open>os.ReadDir\<close> reports an error, discovery fails with
  that error as its cause, whatever entries came with it.
\<close>

theorem discover_listing_fails:
  "os_Stat env (filepath_Join env basePath ''data_stream'') \<noteq> Some ErrNotExist
   \<Longrightarrow> os_ReadDir env (filepath_Join env basePath ''data_stream'') = (entries, Some err)
   \<Longrightarrow> findDataStreams env basePath = Inl (ReadDirFailed err)"
proof -
  assume present: "os_Stat env (filepath_Join env basePath ''data_stream'') \<noteq> Some ErrNotExist"
    and failed: "os_ReadDir env (filepath_Join env basePath ''data_stream'') = (entries, Some err)"
  from present have "\<not> os_IsNotExist (os_Stat env (filepath_Join env basePath ''data_stream''))"
    by (cases "os_Stat env (filepath_Join env basePath ''data_stream'')" rule: os_IsNotExist.cases)
       simp_all
  with failed show ?thesis
    by (simp add: findDataStreams_def)
qed

theorem discover_listing_fails_witness:
  "findDataStreams
     \<lparr>filepath_Join = (\<lambda>a b. a @ ''/'' @ b),
      os_Stat = (\<lambda>p. None),
      os_ReadDir = (\<lambda>p. ([], Some (ErrOther ''permission denied'')))\<rparr> ''pkg''
   = Inl (ReadDirFailed (ErrOther ''permission denied''))"
proof -
  let ?env = "\<lparr>filepath_Join = (\<lambda>a b. a @ ''/'' @ b),
               os_Stat = (\<lambda>p. None),
               os_ReadDir = (\<lambda>p. ([], Some (ErrOther ''permission denied'')))\<rparr>"
  have present: "os_Stat ?env (filepath_Join ?env ''pkg'' ''data_stream'') \<noteq> Some ErrNotExist"
    by simp
  have failed: "os_ReadDir ?env (filepath_Join ?env ''pkg'' ''data_stream'')
                = ([], Some (ErrOther ''permission denied''))"
    by simp
  show ?thesis
    by (rule discover_listing_fails [OF present failed])
qed

section \<open>Where the two patterns match\<close>

text \<open>
  A pattern of the shape literal \<open>a\<close>, \<open>\s+\<close>, literal \<open>b\<close> matches at the start of an
  input exactly when the input is \<open>a\<close>, a non-empty run of white space and \<open>b\<close>, as long
  as \<open>b\<close> does not start with white space itself; what is left is the input after \<open>b\<close>.
\<close>

lemma isSpace_not_brace: "isSpace c \<Longrightarrow> c \<noteq> CHR ''{''"
  by (auto simp: isSpace_def)

lemma re_match_space_lit_intro:
  assumes "b \<noteq> []" and "\<not> isSpace (hd b)"
  shows "ws \<noteq> [] \<Longrightarrow> list_all isSpace ws \<Longrightarrow> re_match [SpacePlus, Lit b] (ws @ b @ r) = Some r"
proof (induction ws)
  case Nil
  then show ?case by simp
next
  case (Cons c ws)
  show ?case
  proof (cases "ws = []")
    case True
    from assms obtain x b' where b: "b = x # b'" and x: "\<not> isSpace x"
      by (cases b) auto
    have "re_match [SpacePlus, Lit b] (b @ r) = None"
      using x by (simp add: b)
    with Cons.prems True show ?thesis by simp
  next
    case False
    with Cons have "re_match [SpacePlus, Lit b] (ws @ b @ r) = Some r" by simp
    with Cons.prems show ?thesis by simp
  qed
qed

lemma re_match_space_lit_elim:
  "re_match [SpacePlus, Lit b] s = Some r
   \<Longrightarrow> \<exists>ws. ws \<noteq> [] \<and> list_all isSpace ws \<and> s = ws @ b @ r"
proof (induction s)
  case Nil
  then show ?case by simp
next
  case (Cons c s)
  then have c: "isSpace c" by (simp split: if_splits)
  show ?case
  proof (cases "re_match [SpacePlus, Lit b] s")
    case None
    with Cons.prems c have "re_match [Lit b] s = Some r" by simp
    then have "s = b @ r"
      by (auto simp: prefix_def split: if_splits)
    with c have "[c] \<noteq> [] \<and> list_all isSpace [c] \<and> c # s = [c] @ b @ r" by simp
    then show ?thesis by blast
  next
    case (Some r')
    with Cons.prems c have "r' = r" by simp
    with Some Cons.IH obtain ws where "ws \<noteq> []" "list_all isSpace ws" "s = ws @ b @ r"
      by blast
    with c have "c # ws \<noteq> [] \<and> list_all isSpace (c # ws) \<and> c # s = (c # ws) @ b @ r" by simp
    then show ?thesis by blast
  qed
qed

lemma re_match_shape_intro:
  assumes "b \<noteq> []" and "\<not> isSpace (hd b)" and "ws \<noteq> []" and "list_all isSpace ws"
  shows "re_match [Lit a, SpacePlus, Lit b] (a @ ws @ b @ r) = Some r"
  using re_match_space_lit_intro [OF assms] by simp

lemma re_match_shape_elim:
  assumes "re_match [Lit a, SpacePlus, Lit b] s = Some r"
  shows "\<exists>ws. ws \<noteq> [] \<and> list_all isSpace ws \<and> s = a @ ws @ b @ r"
proof -
  from assms have p: "prefix a s" and m: "re_match [SpacePlus, Lit b] (drop (length a) s) = Some r"
    by (simp_all split: if_splits)
  from re_match_space_lit_elim [OF m] obtain ws
    where "ws \<noteq> []" "list_all isSpace ws" "drop (length a) s = ws @ b @ r" by blast
  moreover from p have "s = a @ drop (length a) s"
    by (auto simp: prefix_def)
  ultimately have "ws \<noteq> [] \<and> list_all isSpace ws \<and> s = a @ ws @ b @ r" by simp
  then show ?thesis by blast
qed

lemma space_head:
  assumes "list_all isSpace w" and "\<not> isSpace x'" and "w @ s = x' # t"
  shows "w = []"
  using assms by (cases w) auto

lemma space_run_unique:
  assumes "list_all isSpace u" and "list_all isSpace v"
    and "\<not> isSpace x" and "\<not> isSpace y" and "u @ x # s = v @ y # t"
  shows "u = v \<and> x # s = y # t"
  using assms
proof (induction u arbitrary: v)
  case Nil
  then show ?case by (cases v) auto
next
  case (Cons a u)
  then show ?case by (cases v) auto
qed

lemma re_match_consumes:
  assumes "re_match [Lit a, SpacePlus, Lit b] s = Some r"
  shows "length r < length s"
proof -
  from re_match_shape_elim [OF assms] obtain ws
    where "ws \<noteq> []" and "s = a @ ws @ b @ r"
    by blast
  then show ?thesis
    by (cases ws) simp_all
qed

section \<open>Replacing every match\<close>

text \<open>
  The facts about \<open>replaceAllString\<close> the claims need. \<open>placeholderShape k b\<close> collects what
  they use of a pattern \<open>{{k\<close>, \<open>\s+\<close>, \<open>b\<close>: the keyword is not empty, neither literal has
  an opening brace after the first two, and \<open>b\<close> does not start with white space. Then a match
  cannot reach into a text that starts with two opening braces (\<open>shape_cross\<close>), so the
  scan of \<open>A @ X\<close> is the scan of \<open>A\<close> followed by the scan of \<open>X\<close>.
\<close>

definition placeholderShape :: "string \<Rightarrow> string \<Rightarrow> bool" where
  "placeholderShape k b \<longleftrightarrow>
     k \<noteq> [] \<and> CHR ''{'' \<notin> set k \<and> b \<noteq> [] \<and> \<not> isSpace (hd b) \<and> CHR ''{'' \<notin> set b"

lemma replaceAll_miss:
  "re_match re (c # s) = None
   \<Longrightarrow> replaceAllString uni re (c # s) repl = c # replaceAllString uni re s repl"
  by (simp add: replaceAllString.simps(2))

lemma replaceAll_no_prefix:
  "\<not> prefix a (c # s)
   \<Longrightarrow> replaceAllString uni (Lit a # re) (c # s) repl
       = c # replaceAllString uni (Lit a # re) s repl"
  by (simp add: replaceAll_miss)

lemma replaceAll_no_brace:
  "CHR ''{'' \<notin> set w
   \<Longrightarrow> replaceAllString uni (Lit (CHR ''{'' # a) # re) (w @ s) repl
       = w @ replaceAllString uni (Lit (CHR ''{'' # a) # re) s repl"
  by (induction w) (simp_all add: replaceAll_no_prefix)

lemma replaceAll_hit:
  assumes "b \<noteq> []" and "\<not> isSpace (hd b)" and "ws \<noteq> []" and "list_all isSpace ws"
  shows "replaceAllString uni [Lit a, SpacePlus, Lit b] (a @ ws @ b @ r) repl
         = expand uni repl (a @ ws @ b) @ replaceAllString uni [Lit a, SpacePlus, Lit b] r repl"
proof -
  from assms(3) obtain c s where cs: "a @ ws @ b @ r = c # s"
    by (cases "a @ ws @ b @ r") auto
  have m: "re_match [Lit a, SpacePlus, Lit b] (c # s) = Some r"
    unfolding cs [symmetric] by (rule re_match_shape_intro [OF assms])
  have len: "length (c # s) = length (a @ ws @ b) + length r"
    unfolding cs [symmetric] by simp
  from len assms(3) have le: "length r \<le> length s"
    by (cases ws) auto
  have "take (length (c # s) - length r) (c # s) = a @ ws @ b"
    unfolding len unfolding cs [symmetric] by simp
  with m le show ?thesis
    unfolding cs by (simp add: replaceAllString.simps(2))
qed

lemma shape_cross:
  assumes eq: "u @ X = (CHR ''{'' # CHR ''{'' # k) @ ws @ b @ r"
    and u: "u \<noteq> []"
    and X: "prefix ''{{'' X"
    and k: "k \<noteq> []" "CHR ''{'' \<notin> set k"
    and ws: "list_all isSpace ws"
    and b: "CHR ''{'' \<notin> set b"
  shows "\<exists>r0. u = (CHR ''{'' # CHR ''{'' # k) @ ws @ b @ r0 \<and> r = r0 @ X"
proof -
  let ?M = "(CHR ''{'' # CHR ''{'' # k) @ ws @ b"
  have nb: "CHR ''{'' \<notin> set (k @ ws @ b)"
    using k b ws isSpace_not_brace by (auto simp: list_all_iff)
  from eq have "u @ X = ?M @ r" by simp
  then obtain t where t: "(u = ?M @ t \<and> t @ X = r) \<or> (u @ t = ?M \<and> X = t @ r)"
    unfolding append_eq_append_conv2 by blast
  show ?thesis
  proof (cases "u = ?M @ t \<and> t @ X = r")
    case True
    then show ?thesis by auto
  next
    case False
    with t have ut: "u @ t = ?M" and Xt: "X = t @ r" by auto
    show ?thesis
    proof (cases "t = []")
      case True
      with ut Xt show ?thesis by auto
    next
      case False
      from X obtain X' where X': "X = CHR ''{'' # CHR ''{'' # X'"
        by (auto simp: prefix_def)
      from False Xt X' obtain t' where t': "t = CHR ''{'' # t'"
        by (cases t) auto
      from u obtain c u' where cu: "u = c # u'" by (cases u) auto
      from ut cu have u't: "u' @ t = CHR ''{'' # k @ ws @ b" by simp
      show ?thesis
      proof (cases u')
        case Nil
        with u't t' have "t' = k @ ws @ b" by simp
        with Xt X' t' k have "hd k = CHR ''{''"
          by (cases k) auto
        with k have False by (cases k) auto
        then show ?thesis ..
      next
        case (Cons d u'')
        with u't have "u'' @ t = k @ ws @ b" by simp
        then have "set t \<subseteq> set (k @ ws @ b)"
          by (metis set_append sup_ge2)
        with t' nb have False by auto
        then show ?thesis ..
      qed
    qed
  qed
qed

lemma replaceAll_append:
  assumes sh: "placeholderShape k b" and X: "prefix ''{{'' X"
  shows "replaceAllString uni [Lit (''{{'' @ k), SpacePlus, Lit b] (A @ X) repl
         = replaceAllString uni [Lit (''{{'' @ k), SpacePlus, Lit b] A repl
           @ replaceAllString uni [Lit (''{{'' @ k), SpacePlus, Lit b] X repl"
proof (induction A rule: length_induct)
  case (1 A)
  let ?P = "[Lit (''{{'' @ k), SpacePlus, Lit b]"
  from sh have b: "b \<noteq> []" "\<not> isSpace (hd b)" "CHR ''{'' \<notin> set b"
    and k: "k \<noteq> []" "CHR ''{'' \<notin> set k"
    by (simp_all add: placeholderShape_def)
  show ?case
  proof (cases A)
    case Nil
    then show ?thesis by simp
  next
    case (Cons c A')
    show ?thesis
    proof (cases "re_match ?P (c # A' @ X)")
      case None
      have "re_match ?P (c # A') = None"
      proof (rule ccontr)
        assume "re_match ?P (c # A') \<noteq> None"
        then obtain r where "re_match ?P (c # A') = Some r" by auto
        from re_match_shape_elim [OF this] obtain ws
          where ws: "ws \<noteq> []" "list_all isSpace ws" and "c # A' = (''{{'' @ k) @ ws @ b @ r"
          by blast
        then have "(c # A') @ X = ((''{{'' @ k) @ ws @ b @ r) @ X"
          by (simp only:)
        then have "c # A' @ X = (''{{'' @ k) @ ws @ b @ (r @ X)"
          by simp
        with re_match_shape_intro [OF b(1,2) ws, of "''{{'' @ k" "r @ X"] None
        show False by simp
      qed
      with None 1 Cons show ?thesis
        by (simp add: replaceAll_miss)
    next
      case (Some r)
      from re_match_shape_elim [OF this] obtain ws
        where ws: "ws \<noteq> []" "list_all isSpace ws"
          and eq: "c # A' @ X = (''{{'' @ k) @ ws @ b @ r"
        by blast
      from eq have "(c # A') @ X = (CHR ''{'' # CHR ''{'' # k) @ ws @ b @ r" by simp
      from shape_cross [OF this _ X k ws(2) b(3)] obtain r0
        where A: "c # A' = (''{{'' @ k) @ ws @ b @ r0" and r: "r = r0 @ X"
        by auto
      have "length (c # A') = length ((''{{'' @ k) @ ws @ b @ r0)"
        by (simp only: A)
      then have lt: "length r0 < length A"
        using Cons by simp
      have IH: "replaceAllString uni ?P (r0 @ X) repl
          = replaceAllString uni ?P r0 repl @ replaceAllString uni ?P X repl"
        by (rule 1 [rule_format, OF lt])
      have "A @ X = ((''{{'' @ k) @ ws @ b @ r0) @ X"
        unfolding Cons A ..
      then have "A @ X = (''{{'' @ k) @ ws @ b @ (r0 @ X)"
        by simp
      then have "replaceAllString uni ?P (A @ X) repl
            = replaceAllString uni ?P ((''{{'' @ k) @ ws @ b @ (r0 @ X)) repl"
        by (simp only:)
      also have "\<dots> = expand uni repl ((''{{'' @ k) @ ws @ b) @ replaceAllString uni ?P (r0 @ X) repl"
        by (rule replaceAll_hit [OF b(1,2) ws])
      also have "\<dots> = (expand uni repl ((''{{'' @ k) @ ws @ b) @ replaceAllString uni ?P r0 repl)
                       @ replaceAllString uni ?P X repl"
        by (simp only: IH append_assoc)
      also have "expand uni repl ((''{{'' @ k) @ ws @ b) @ replaceAllString uni ?P r0 repl
                 = replaceAllString uni ?P A repl"
        unfolding Cons A by (rule replaceAll_hit [OF b(1,2) ws, symmetric])
      finally show ?thesis .
    qed
  qed
qed

lemma expand_no_dollar: "CHR ''$'' \<notin> set t \<Longrightarrow> expand uni t m = t"
  by (induction t) auto

fun noMatchAt :: "re_item list \<Rightarrow> string \<Rightarrow> bool" where
  "noMatchAt re [] = True"
| "noMatchAt re (c # s) = (re_match re (c # s) = None \<and> noMatchAt re s)"

lemma replaceAll_noMatch: "noMatchAt re t \<Longrightarrow> replaceAllString uni re t repl = t"
  by (induction t) (simp_all add: replaceAll_miss)

lemma replaceAll_text_then:
  assumes "placeholderShape k b" and "noMatchAt [Lit (''{{'' @ k), SpacePlus, Lit b] t"
    and "rest = [] \<or> prefix ''{{'' rest"
  shows "replaceAllString uni [Lit (''{{'' @ k), SpacePlus, Lit b] (t @ rest) repl
         = t @ replaceAllString uni [Lit (''{{'' @ k), SpacePlus, Lit b] rest repl"
proof (cases "rest = []")
  case True
  with assms(2) show ?thesis by (simp add: replaceAll_noMatch)
next
  case False
  with assms(3) have "prefix ''{{'' rest" by simp
  from replaceAll_append [OF assms(1) this] assms(2) show ?thesis
    by (simp add: replaceAll_noMatch)
qed

text \<open>
  One pass over a document written as tokens, each followed by a stretch of text: when every
  token starts with two braces and is turned into \<open>out\<close> wherever it stands, and no
  stretch of text holds a match, the pass rewrites the tokens and keeps the text.
\<close>

lemma replaceAll_pass:
  assumes sh: "placeholderShape k b"
    and items: "\<forall>(tok, out, t) \<in> set items.
        prefix ''{{'' tok \<and> noMatchAt [Lit (''{{'' @ k), SpacePlus, Lit b] t
        \<and> (\<forall>Y. replaceAllString uni [Lit (''{{'' @ k), SpacePlus, Lit b] (tok @ Y) repl
                 = out @ replaceAllString uni [Lit (''{{'' @ k), SpacePlus, Lit b] Y repl)"
  shows "replaceAllString uni [Lit (''{{'' @ k), SpacePlus, Lit b]
           (concat (map (\<lambda>(tok, out, t). tok @ t) items)) repl
         = concat (map (\<lambda>(tok, out, t). out @ t) items)"
  using items
proof (induction items)
  case Nil
  then show ?case by simp
next
  case (Cons it items)
  obtain tok out t where it: "it = (tok, out, t)" by (cases it)
  let ?P = "[Lit (''{{'' @ k), SpacePlus, Lit b]"
  let ?rest = "concat (map (\<lambda>(tok, out, t). tok @ t) items)"
  from Cons.prems it have tok: "prefix ''{{'' tok" and t: "noMatchAt ?P t"
    and step: "\<And>Y. replaceAllString uni ?P (tok @ Y) repl = out @ replaceAllString uni ?P Y repl"
    by auto
  have rest: "?rest = [] \<or> prefix ''{{'' ?rest"
  proof (cases items)
    case Nil
    then show ?thesis by simp
  next
    case (Cons it' items')
    obtain tok' out' t' where "it' = (tok', out', t')" by (cases it')
    with Cons.prems Cons have "prefix ''{{'' tok'" by auto
    with Cons \<open>it' = (tok', out', t')\<close> show ?thesis
      by (auto simp: prefix_def)
  qed
  have IH: "replaceAllString uni ?P ?rest repl = concat (map (\<lambda>(tok, out, t). out @ t) items)"
    by (rule Cons.IH) (use Cons.prems in simp)
  have "replaceAllString uni ?P (concat (map (\<lambda>(tok, out, t). tok @ t) (it # items))) repl
        = replaceAllString uni ?P (tok @ (t @ ?rest)) repl"
    by (simp add: it)
  also have "\<dots> = out @ replaceAllString uni ?P (t @ ?rest) repl"
    by (rule step)
  also have "\<dots> = out @ t @ replaceAllString uni ?P ?rest repl"
    by (simp only: replaceAll_text_then [OF sh t rest])
  also have "\<dots> = concat (map (\<lambda>(tok, out, t). out @ t) (it # items))"
    unfolding IH by (simp add: it)
  finally show ?case .
qed

section \<open>Generic and rendered placeholders\<close>

text \<open>
  The two kinds of placeholder, the keyword and the pattern of each, the generic token the
  pattern looks for (with any white space \<open>ws\<close> between keyword and name) and the token
  rendered for an entity. \<open>placeholderFree t\<close> says that neither pattern matches at any
  position of \<open>t\<close>.
\<close>

datatype kind = Fields | Event

fun keyword :: "kind \<Rightarrow> string" where
  "keyword Fields = ''fields''"
| "keyword Event = ''event''"

fun patternOf :: "kind \<Rightarrow> re_item list" where
  "patternOf Fields = fieldsPattern"
| "patternOf Event = eventPattern"

fun renderPlaceholder :: "kind \<Rightarrow> string \<Rightarrow> string" where
  "renderPlaceholder Fields e = fieldsPlaceholder e"
| "renderPlaceholder Event e = eventPlaceholder e"

definition genericPlaceholder :: "kind \<Rightarrow> string \<Rightarrow> string" where
  "genericPlaceholder k ws = ''{{'' @ keyword k @ ws @ ''\"data_stream_name\"}}''"

definition placeholderFree :: "string \<Rightarrow> bool" where
  "placeholderFree t \<longleftrightarrow> noMatchAt fieldsPattern t \<and> noMatchAt eventPattern t"

lemma patternOf_shape:
  "patternOf k = [Lit (''{{'' @ keyword k), SpacePlus, Lit ''\"data_stream_name\"}}'']"
  by (cases k) (simp_all add: fieldsPattern_def eventPattern_def)

lemma keyword_shape: "placeholderShape (keyword k) ''\"data_stream_name\"}}''"
  by (cases k) (simp_all add: placeholderShape_def isSpace_def)

lemma generic_prefix: "prefix ''{{'' (genericPlaceholder k ws)"
  by (simp add: genericPlaceholder_def)

lemma render_prefix: "prefix ''{{'' (renderPlaceholder k e)"
  by (cases k) (simp_all add: fieldsPlaceholder_def eventPlaceholder_def)

lemma replaceAll_generic_hit:
  assumes "ws \<noteq> []" and "list_all isSpace ws"
  shows "replaceAllString uni (patternOf k) (genericPlaceholder k ws @ Y) repl
         = expand uni repl (genericPlaceholder k ws) @ replaceAllString uni (patternOf k) Y repl"
proof -
  have b: "''\"data_stream_name\"}}'' \<noteq> []" "\<not> isSpace (hd ''\"data_stream_name\"}}'')"
    by (simp_all add: isSpace_def)
  have "replaceAllString uni [Lit (''{{'' @ keyword k), SpacePlus, Lit ''\"data_stream_name\"}}'']
          ((''{{'' @ keyword k) @ ws @ ''\"data_stream_name\"}}'' @ Y) repl
        = expand uni repl ((''{{'' @ keyword k) @ ws @ ''\"data_stream_name\"}}'')
          @ replaceAllString uni [Lit (''{{'' @ keyword k), SpacePlus, Lit ''\"data_stream_name\"}}'']
              Y repl"
    by (rule replaceAll_hit [OF b assms])
  then show ?thesis
    unfolding patternOf_shape genericPlaceholder_def by (simp only: append_assoc)
qed

lemma isSpace_no_brace_set: "list_all isSpace ws \<Longrightarrow> CHR ''{'' \<notin> set ws"
  using isSpace_not_brace by (auto simp: list_all_iff)

lemma replaceAll_other_generic:
  assumes "list_all isSpace ws" and "k' \<noteq> k"
  shows "replaceAllString uni (patternOf k) (genericPlaceholder k' ws @ Y) repl
         = genericPlaceholder k' ws @ replaceAllString uni (patternOf k) Y repl"
proof -
  have nb: "CHR ''{'' \<notin> set (keyword k' @ ws @ ''\"data_stream_name\"}}'')"
    using isSpace_no_brace_set [OF assms(1)] by (cases k') simp_all
  have "replaceAllString uni (patternOf k)
          (CHR ''{'' # CHR ''{'' # (keyword k' @ ws @ ''\"data_stream_name\"}}'') @ Y) repl
        = CHR ''{'' # CHR ''{'' # (keyword k' @ ws @ ''\"data_stream_name\"}}'')
          @ replaceAllString uni (patternOf k) Y repl"
    unfolding patternOf_shape
    using assms(2) replaceAll_no_brace [OF nb, of uni "CHR ''{'' # keyword k" _ Y repl]
    by (cases k; cases k') (simp_all add: replaceAll_no_prefix)
  then show ?thesis
    by (simp add: genericPlaceholder_def)
qed

lemma replaceAll_other_rendered:
  assumes "CHR ''{'' \<notin> set e" and "k' \<noteq> k"
  shows "replaceAllString uni (patternOf k) (renderPlaceholder k' e @ Y) repl
         = renderPlaceholder k' e @ replaceAllString uni (patternOf k) Y repl"
proof -
  have nb: "CHR ''{'' \<notin> set (keyword k' @ '' \"'' @ e @ ''\"}}'')"
    using assms(1) by (cases k') simp_all
  have r: "renderPlaceholder k' e = CHR ''{'' # CHR ''{'' # (keyword k' @ '' \"'' @ e @ ''\"}}'')"
    by (cases k') (simp_all add: fieldsPlaceholder_def eventPlaceholder_def)
  have "replaceAllString uni (patternOf k)
          (CHR ''{'' # CHR ''{'' # (keyword k' @ '' \"'' @ e @ ''\"}}'') @ Y) repl
        = CHR ''{'' # CHR ''{'' # (keyword k' @ '' \"'' @ e @ ''\"}}'')
          @ replaceAllString uni (patternOf k) Y repl"
    unfolding patternOf_shape
    using assms(2) replaceAll_no_brace [OF nb, of uni "CHR ''{'' # keyword k" _ Y repl]
    by (cases k; cases k') (simp_all add: replaceAll_no_prefix)
  then show ?thesis
    by (simp add: r)
qed

lemma replaceAll_pass_kind:
  assumes "\<forall>(tok, out, t) \<in> set items.
        prefix ''{{'' tok \<and> noMatchAt (patternOf k) t
        \<and> (\<forall>Y. replaceAllString uni (patternOf k) (tok @ Y) repl
                 = out @ replaceAllString uni (patternOf k) Y repl)"
    and "noMatchAt (patternOf k) t0"
  shows "replaceAllString uni (patternOf k)
           (t0 @ concat (map (\<lambda>(tok, out, t). tok @ t) items)) repl
         = t0 @ concat (map (\<lambda>(tok, out, t). out @ t) items)"
proof -
  let ?D = "concat (map (\<lambda>(tok, out, t). tok @ t) items)"
  have D: "?D = [] \<or> prefix ''{{'' ?D"
  proof (cases items)
    case Nil
    then show ?thesis by simp
  next
    case (Cons it items')
    obtain tok out t where it: "it = (tok, out, t)" by (cases it)
    with assms(1) Cons have "prefix ''{{'' tok" by auto
    with Cons it show ?thesis by (auto simp: prefix_def)
  qed
  show ?thesis
    using replaceAll_text_then [OF keyword_shape _ D, of k t0 uni repl]
      replaceAll_pass [OF keyword_shape, of items k uni repl] assms
    unfolding patternOf_shape by simp
qed

section \<open>One entity\<close>

text \<open>
  The single-entity branch on a document written as a text \<open>t0\<close> followed by generic
  placeholders, each followed by a text, where no text holds a generic placeholder: for an
  entity name without \<open>$\<close> and without \<open>{\<close>, every generic placeholder is replaced by the
  placeholder rendered for the entity and every text is kept as it is.
\<close>

theorem single_entity_rewrite:
  assumes e: "CHR ''$'' \<notin> set e" "CHR ''{'' \<notin> set e"
    and t0: "placeholderFree t0"
    and items: "\<forall>(k, ws, t) \<in> set items. ws \<noteq> [] \<and> list_all isSpace ws \<and> placeholderFree t"
  shows "applyDataStreamPlaceholders uni
           (t0 @ concat (map (\<lambda>(k, ws, t). genericPlaceholder k ws @ t) items)) [e]
         = t0 @ concat (map (\<lambda>(k, ws, t). renderPlaceholder k e @ t) items)"
proof -
  define mid where "mid = (\<lambda>k ws. case k of Fields \<Rightarrow> fieldsPlaceholder e
                                      | Event \<Rightarrow> genericPlaceholder Event ws)"
  define items1 where "items1 = map (\<lambda>(k, ws, t). (genericPlaceholder k ws, mid k ws, t)) items"
  define items2 where "items2 = map (\<lambda>(k, ws, t). (mid k ws, renderPlaceholder k e, t)) items"
  have nd: "CHR ''$'' \<notin> set (fieldsPlaceholder e)" "CHR ''$'' \<notin> set (eventPlaceholder e)"
    using e(1) by (simp_all add: fieldsPlaceholder_def eventPlaceholder_def)
  have doc: "concat (map (\<lambda>(k, ws, t). genericPlaceholder k ws @ t) items)
             = concat (map (\<lambda>(tok, out, t). tok @ t) items1)"
    by (simp add: items1_def o_def split_def)
  have doc1: "concat (map (\<lambda>(tok, out, t). out @ t) items1)
              = concat (map (\<lambda>(tok, out, t). tok @ t) items2)"
    by (simp add: items1_def items2_def o_def split_def)
  have doc2: "concat (map (\<lambda>(tok, out, t). out @ t) items2)
              = concat (map (\<lambda>(k, ws, t). renderPlaceholder k e @ t) items)"
    by (simp add: items2_def o_def split_def)
  have p1: "\<forall>(tok, out, t) \<in> set items1.
        prefix ''{{'' tok \<and> noMatchAt (patternOf Fields) t
        \<and> (\<forall>Y. replaceAllString uni (patternOf Fields) (tok @ Y) (fieldsPlaceholder e)
                 = out @ replaceAllString uni (patternOf Fields) Y (fieldsPlaceholder e))"
  proof (clarify)
    fix tok out t assume "(tok, out, t) \<in> set items1"
    then obtain k ws where in_items: "(k, ws, t) \<in> set items"
      and tok: "tok = genericPlaceholder k ws" and out: "out = mid k ws"
      by (auto simp: items1_def)
    from items in_items have ws: "ws \<noteq> []" "list_all isSpace ws" and t: "placeholderFree t"
      by auto
    have "replaceAllString uni (patternOf Fields) (tok @ Y) (fieldsPlaceholder e)
          = out @ replaceAllString uni (patternOf Fields) Y (fieldsPlaceholder e)" for Y
    proof (cases k)
      case Fields
      then show ?thesis
        unfolding tok out mid_def
        using replaceAll_generic_hit [OF ws, of uni Fields Y "fieldsPlaceholder e"]
        by (simp add: expand_no_dollar [OF nd(1)])
    next
      case Event
      then show ?thesis
        unfolding tok out mid_def
        using replaceAll_other_generic [OF ws(2), of Event Fields uni Y "fieldsPlaceholder e"]
        by simp
    qed
    with t show "prefix ''{{'' tok \<and> noMatchAt (patternOf Fields) t
        \<and> (\<forall>Y. replaceAllString uni (patternOf Fields) (tok @ Y) (fieldsPlaceholder e)
                 = out @ replaceAllString uni (patternOf Fields) Y (fieldsPlaceholder e))"
      by (simp add: tok generic_prefix placeholderFree_def)
  qed
  have p2: "\<forall>(tok, out, t) \<in> set items2.
        prefix ''{{'' tok \<and> noMatchAt (patternOf Event) t
        \<and> (\<forall>Y. replaceAllString uni (patternOf Event) (tok @ Y) (eventPlaceholder e)
                 = out @ replaceAllString uni (patternOf Event) Y (eventPlaceholder e))"
  proof (clarify)
    fix tok out t assume "(tok, out, t) \<in> set items2"
    then obtain k ws where in_items: "(k, ws, t) \<in> set items"
      and tok: "tok = mid k ws" and out: "out = renderPlaceholder k e"
      by (auto simp: items2_def)
    from items in_items have ws: "ws \<noteq> []" "list_all isSpace ws" and t: "placeholderFree t"
      by auto
    have step: "replaceAllString uni (patternOf Event) (tok @ Y) (eventPlaceholder e)
          = out @ replaceAllString uni (patternOf Event) Y (eventPlaceholder e)" for Y
    proof (cases k)
      case Fields
      have "replaceAllString uni (patternOf Event) (renderPlaceholder Fields e @ Y) (eventPlaceholder e)
            = renderPlaceholder Fields e @ replaceAllString uni (patternOf Event) Y (eventPlaceholder e)"
        by (rule replaceAll_other_rendered [OF e(2)]) simp
      with Fields show ?thesis
        unfolding tok out mid_def by simp
    next
      case Event
      then show ?thesis
        unfolding tok out mid_def
        using replaceAll_generic_hit [OF ws, of uni Event Y "eventPlaceholder e"]
        by (simp add: expand_no_dollar [OF nd(2)])
    qed
    have "prefix ''{{'' tok"
      unfolding tok mid_def using generic_prefix [of Event ws] render_prefix [of Fields e]
      by (cases k) simp_all
    with t step show "prefix ''{{'' tok \<and> noMatchAt (patternOf Event) t
        \<and> (\<forall>Y. replaceAllString uni (patternOf Event) (tok @ Y) (eventPlaceholder e)
                 = out @ replaceAllString uni (patternOf Event) Y (eventPlaceholder e))"
      by (simp add: placeholderFree_def)
  qed
  from t0 have t0f: "noMatchAt (patternOf Fields) t0" and t0e: "noMatchAt (patternOf Event) t0"
    by (simp_all add: placeholderFree_def)
  have "applyDataStreamPlaceholders uni
           (t0 @ concat (map (\<lambda>(k, ws, t). genericPlaceholder k ws @ t) items)) [e]
        = replaceAllString uni (patternOf Event)
            (replaceAllString uni (patternOf Fields)
               (t0 @ concat (map (\<lambda>(tok, out, t). tok @ t) items1)) (fieldsPlaceholder e))
            (eventPlaceholder e)"
    by (simp add: applyDataStreamPlaceholders_def doc)
  also have "\<dots> = replaceAllString uni (patternOf Event)
            (t0 @ concat (map (\<lambda>(tok, out, t). tok @ t) items2)) (eventPlaceholder e)"
    by (simp only: replaceAll_pass_kind [OF p1 t0f] doc1)
  also have "\<dots> = t0 @ concat (map (\<lambda>(k, ws, t). renderPlaceholder k e @ t) items)"
    by (simp only: replaceAll_pass_kind [OF p2 t0e] doc2)
  finally show ?thesis .
qed

theorem single_entity_rewrite_witness:
  "applyDataStreamPlaceholders (\<lambda>_. 0)
     (''# T\<newline>'' @ concat (map (\<lambda>(k, ws, t). genericPlaceholder k ws @ t)
        [(Fields, '' '', ''\<newline>text\<newline>''), (Event, ''  '', ''\<newline>end'')])) [''logs'']
   = ''# T\<newline>'' @ concat (map (\<lambda>(k, ws, t). renderPlaceholder k ''logs'' @ t)
        [(Fields, '' '', ''\<newline>text\<newline>''), (Event, ''  '', ''\<newline>end'')])"
proof -
  have e: "CHR ''$'' \<notin> set ''logs''" "CHR ''{'' \<notin> set ''logs''"
    by simp_all
  have t0: "placeholderFree ''# T\<newline>''"
    by (simp add: placeholderFree_def fieldsPattern_def eventPattern_def)
  have t1: "placeholderFree ''\<newline>text\<newline>''" and t2: "placeholderFree ''\<newline>end''"
    by (simp_all add: placeholderFree_def fieldsPattern_def eventPattern_def)
  have items: "\<forall>(k, ws, t) \<in> set [(Fields, '' '', ''\<newline>text\<newline>''), (Event, ''  '', ''\<newline>end'')].
      ws \<noteq> [] \<and> list_all isSpace ws \<and> placeholderFree t"
    using t1 t2 by (simp add: isSpace_def)
  show ?thesis
    by (rule single_entity_rewrite [OF e t0 items])
qed

lemma re_match_extend:
  assumes "b \<noteq> []" and "\<not> isSpace (hd b)"
    and "re_match [Lit a, SpacePlus, Lit b] u = Some r"
  shows "re_match [Lit a, SpacePlus, Lit b] (u @ X) = Some (r @ X)"
proof -
  from re_match_shape_elim [OF assms(3)] obtain ws
    where ws: "ws \<noteq> []" "list_all isSpace ws" and u: "u = a @ ws @ b @ r"
    by blast
  have "re_match [Lit a, SpacePlus, Lit b] (a @ ws @ b @ (r @ X)) = Some (r @ X)"
    by (rule re_match_shape_intro [OF assms(1,2) ws])
  then show ?thesis
    by (simp add: u)
qed

lemma patternOf_extend_none:
  assumes "re_match (patternOf k) (u @ X) = None"
  shows "re_match (patternOf k) u = None"
proof (rule ccontr)
  assume "re_match (patternOf k) u \<noteq> None"
  then obtain r where r: "re_match (patternOf k) u = Some r"
    by auto
  have b: "''\"data_stream_name\"}}'' \<noteq> []" "\<not> isSpace (hd ''\"data_stream_name\"}}'')"
    by (simp_all add: isSpace_def)
  from re_match_extend [OF b r [unfolded patternOf_shape], of X] assms show False
    unfolding patternOf_shape by simp
qed

lemma patternOf_match_generic:
  assumes "re_match (patternOf k) d = Some r"
  shows "\<exists>ws. ws \<noteq> [] \<and> list_all isSpace ws \<and> d = genericPlaceholder k ws @ r"
proof -
  from re_match_shape_elim [OF assms [unfolded patternOf_shape]] obtain ws
    where "ws \<noteq> []" "list_all isSpace ws"
      and "d = (''{{'' @ keyword k) @ ws @ ''\"data_stream_name\"}}'' @ r"
    by blast
  then have "ws \<noteq> [] \<and> list_all isSpace ws \<and> d = genericPlaceholder k ws @ r"
    by (simp add: genericPlaceholder_def)
  then show ?thesis ..
qed

text \<open>
  Every document can be written in that form: a text, then generic placeholders each
  followed by a text, with no generic placeholder inside any of the texts. So the theorem
  above speaks of every document.
\<close>

theorem document_decomposes:
  "\<exists>t0 items.
     d = t0 @ concat (map (\<lambda>(k, ws, t). genericPlaceholder k ws @ t) items)
     \<and> placeholderFree t0
     \<and> (\<forall>(k, ws, t) \<in> set items. ws \<noteq> [] \<and> list_all isSpace ws \<and> placeholderFree t)"
proof (induction d rule: length_induct)
  case (1 d)
  let ?ok = "\<lambda>d t0 items.
     d = t0 @ concat (map (\<lambda>(k, ws, t). genericPlaceholder k ws @ t) items)
     \<and> placeholderFree t0
     \<and> (\<forall>(k, ws, t) \<in> set items. ws \<noteq> [] \<and> list_all isSpace ws \<and> placeholderFree t)"
  have hit: "\<exists>t0 items. ?ok d t0 items" if m: "re_match (patternOf k) d = Some r" for k r
  proof -
    from patternOf_match_generic [OF m] obtain ws
      where ws: "ws \<noteq> []" "list_all isSpace ws" and d: "d = genericPlaceholder k ws @ r"
      by blast
    have "length r < length d"
      by (simp add: d genericPlaceholder_def)
    with 1 obtain t0 items where r: "?ok r t0 items"
      by blast
    have "?ok d [] ((k, ws, t0) # items)"
      using r ws by (simp add: d placeholderFree_def)
    then show ?thesis by blast
  qed
  show ?case
  proof (cases d)
    case Nil
    then have "?ok d [] []"
      by (simp add: placeholderFree_def)
    then show ?thesis by blast
  next
    case (Cons c d')
    show ?thesis
    proof (cases "re_match (patternOf Fields) d")
      case (Some r)
      then show ?thesis by (rule hit)
    next
      case nf: None
      show ?thesis
      proof (cases "re_match (patternOf Event) d")
        case (Some r)
        then show ?thesis by (rule hit)
      next
        case ne: None
        from 1 Cons obtain t0 items where d': "?ok d' t0 items"
          by force
        let ?rest = "concat (map (\<lambda>(k, ws, t). genericPlaceholder k ws @ t) items)"
        from d' Cons have d: "d = (c # t0) @ ?rest"
          by simp
        have "re_match (patternOf Fields) (c # t0) = None"
          by (rule patternOf_extend_none [of Fields "c # t0" ?rest]) (use nf d in simp)
        moreover have "re_match (patternOf Event) (c # t0) = None"
          by (rule patternOf_extend_none [of Event "c # t0" ?rest]) (use ne d in simp)
        ultimately have "re_match (patternOf Fields) (c # t0) = None"
          and "re_match (patternOf Event) (c # t0) = None"
          by blast+
        with d' have "placeholderFree (c # t0)"
          by (simp add: placeholderFree_def)
        with d' d have "?ok d (c # t0) items"
          by blast
        then show ?thesis by blast
      qed
    qed
  qed
qed

theorem document_decomposes_witness:
  "\<exists>t0 items.
     ''see {{fields \"data_stream_name\"}}.''
       = t0 @ concat (map (\<lambda>(k, ws, t). genericPlaceholder k ws @ t) items)
     \<and> placeholderFree t0
     \<and> (\<forall>(k, ws, t) \<in> set items. ws \<noteq> [] \<and> list_all isSpace ws \<and> placeholderFree t)"
  by (rule document_decomposes)

text \<open>
  Claim C1 says the same of every entity name. An entity name is the name of a directory
  and may hold a \<open>$\<close>; \<open>ReplaceAllString\<close> then reads the \<open>$\<close> and the letters after it as
  a reference to a submatch the pattern does not have and drops them. The multi-entity
  branch writes the same name through \<open>fmt.Sprintf\<close> alone and keeps it.
\<close>

theorem rewrite_dollar_name:
  "applyDataStreamPlaceholders uni ''# T\<newline>{{fields \"data_stream_name\"}}\<newline>'' [''a$b'']
   = ''# T\<newline>{{fields \"a\"}}\<newline>''"
  by code_simp

section \<open>Rendering and matching agree\<close>

text \<open>
  \<open>placeholderPattern kw name\<close> is the pattern of the rewriter with a keyword and a quoted
  name of choice; the two patterns of the program are its instances for the name
  \<open>data_stream_name\<close>.
\<close>

definition placeholderPattern :: "string \<Rightarrow> string \<Rightarrow> re_item list" where
  "placeholderPattern kw name = [Lit (''{{'' @ kw), SpacePlus, Lit (''\"'' @ name @ ''\"}}'')]"

text \<open>
  The strings the four format calls render. For every entity name \<open>e\<close>, \<open>{{fields "e"}}\<close>
  and \<open>{{event "e"}}\<close> are matched in full by the pattern of the rewriter with \<open>e\<close> in the
  place of the quoted name, and by that pattern with no other name: the name is recovered
  from the rendered string. The blocks of the multi-entity output hold exactly these
  strings under the heading of the entity.
\<close>

theorem rendered_placeholder_recoverable:
  "fieldsPattern = placeholderPattern ''fields'' ''data_stream_name''
   \<and> eventPattern = placeholderPattern ''event'' ''data_stream_name''
   \<and> (re_match (placeholderPattern ''fields'' e') (fieldsPlaceholder e) = Some [] \<longleftrightarrow> e' = e)
   \<and> (re_match (placeholderPattern ''event'' e') (eventPlaceholder e) = Some [] \<longleftrightarrow> e' = e)
   \<and> fieldsSection e = ''#### '' @ e @ ''\<newline>\<newline>'' @ fieldsPlaceholder e @ ''\<newline>\<newline>''
   \<and> eventSection e = ''#### '' @ e @ ''\<newline>\<newline>'' @ eventPlaceholder e @ ''\<newline>\<newline>''"
proof -
  have sp: "'' '' \<noteq> []" "list_all isSpace '' ''"
    by (simp_all add: isSpace_def)
  have q: "\<not> isSpace (CHR 0x22)"
    by (simp add: isSpace_def)
  have m: "re_match [Lit a, SpacePlus, Lit (''\"'' @ n @ ''\"}}'')]
             (a @ '' '' @ ''\"'' @ e @ ''\"}}'') = Some [] \<longleftrightarrow> n = e" for a n
  proof
    assume "re_match [Lit a, SpacePlus, Lit (''\"'' @ n @ ''\"}}'')]
              (a @ '' '' @ ''\"'' @ e @ ''\"}}'') = Some []"
    from re_match_shape_elim [OF this] obtain ws
      where ws: "list_all isSpace ws"
        and eq: "a @ '' '' @ ''\"'' @ e @ ''\"}}'' = a @ ws @ (''\"'' @ n @ ''\"}}'') @ []"
      by blast
    from eq have "'' '' @ CHR 0x22 # (e @ ''\"}}'') = ws @ CHR 0x22 # (n @ ''\"}}'')"
      by simp
    from space_run_unique [OF sp(2) ws q q this] show "n = e"
      by simp
  next
    assume n: "n = e"
    have b: "''\"'' @ e @ ''\"}}'' \<noteq> []" "\<not> isSpace (hd (''\"'' @ e @ ''\"}}''))"
      by (simp_all add: isSpace_def)
    have "re_match [Lit a, SpacePlus, Lit (''\"'' @ e @ ''\"}}'')]
            (a @ '' '' @ (''\"'' @ e @ ''\"}}'') @ []) = Some []"
      by (rule re_match_shape_intro [OF b sp])
    with n show "re_match [Lit a, SpacePlus, Lit (''\"'' @ n @ ''\"}}'')]
                   (a @ '' '' @ ''\"'' @ e @ ''\"}}'') = Some []"
      by simp
  qed
  have f: "re_match (placeholderPattern ''fields'' e') (fieldsPlaceholder e) = Some [] \<longleftrightarrow> e' = e"
    using m [of "''{{fields''" e'] by (simp add: placeholderPattern_def fieldsPlaceholder_def)
  have v: "re_match (placeholderPattern ''event'' e') (eventPlaceholder e) = Some [] \<longleftrightarrow> e' = e"
    using m [of "''{{event''" e'] by (simp add: placeholderPattern_def eventPlaceholder_def)
  have rest: "fieldsPattern = placeholderPattern ''fields'' ''data_stream_name''"
    "eventPattern = placeholderPattern ''event'' ''data_stream_name''"
    "fieldsSection e = ''#### '' @ e @ ''\<newline>\<newline>'' @ fieldsPlaceholder e @ ''\<newline>\<newline>''"
    "eventSection e = ''#### '' @ e @ ''\<newline>\<newline>'' @ eventPlaceholder e @ ''\<newline>\<newline>''"
    by (simp_all add: placeholderPattern_def fieldsPattern_def eventPattern_def
        fieldsSection_def eventSection_def fieldsPlaceholder_def eventPlaceholder_def)
  from rest f v show ?thesis
    by (intro conjI)
qed

text \<open>
  Claim C9 says that every placeholder the rewriter renders for an entity \<open>e\<close> is matched
  by the pattern with \<open>e\<close> in the place of the quoted name, in the single-entity replacement
  as well as in the multi-entity blocks. The blocks hold the rendered string as it is. The
  single-entity branch hands the rendered string to \<open>ReplaceAllString\<close> as a replacement,
  and a \<open>$\<close> in the name is expanded there: for the entity \<open>a$b\<close> the placeholder written
  is \<open>{{fields "a"}}\<close>, which the pattern for \<open>a$b\<close> does not match and the pattern for
  \<open>a\<close> does. The event placeholder loses the name in the same way.
\<close>

theorem rendered_name_not_recovered:
  "applyDataStreamPlaceholders uni ''{{fields \"data_stream_name\"}}'' [''a$b'']
     = ''{{fields \"a\"}}''
   \<and> re_match (placeholderPattern ''fields'' ''a$b'') ''{{fields \"a\"}}'' = None
   \<and> re_match (placeholderPattern ''fields'' ''a'') ''{{fields \"a\"}}'' = Some []
   \<and> applyDataStreamPlaceholders uni ''{{event \"data_stream_name\"}}'' [''a$b'']
     = ''{{event \"a\"}}''
   \<and> re_match (placeholderPattern ''event'' ''a$b'') ''{{event \"a\"}}'' = None"
proof (intro conjI)
  show "applyDataStreamPlaceholders uni ''{{fields \"data_stream_name\"}}'' [''a$b'']
        = ''{{fields \"a\"}}''"
    by code_simp
  show "re_match (placeholderPattern ''fields'' ''a$b'') ''{{fields \"a\"}}'' = None"
    by code_simp
  show "re_match (placeholderPattern ''fields'' ''a'') ''{{fields \"a\"}}'' = Some []"
    by code_simp
  show "applyDataStreamPlaceholders uni ''{{event \"data_stream_name\"}}'' [''a$b'']
        = ''{{event \"a\"}}''"
    by code_simp
  show "re_match (placeholderPattern ''event'' ''a$b'') ''{{event \"a\"}}'' = None"
    by code_simp
qed

section \<open>White space the patterns do not accept\<close>

text \<open>
  \<open>spacedToken k w1 w2 w3 w4 w5\<close> is a generic placeholder with white space \<open>w1\<close> after the
  opening braces, \<open>w2\<close> between keyword and name, \<open>w3\<close> and \<open>w4\<close> inside the quotes and
  \<open>w5\<close> before the closing braces.
\<close>

definition spacedToken :: "kind \<Rightarrow> string \<Rightarrow> string \<Rightarrow> string \<Rightarrow> string \<Rightarrow> string \<Rightarrow> string" where
  "spacedToken k w1 w2 w3 w4 w5 =
     ''{{'' @ w1 @ keyword k @ w2 @ ''\"'' @ w3 @ ''data_stream_name'' @ w4 @ ''\"'' @ w5 @ ''}}''"

lemma keyword_head: "\<exists>x kx. keyword k = x # kx \<and> \<not> isSpace x \<and> x \<noteq> CHR ''{''"
  by (cases k) (simp_all add: isSpace_def)

lemma keyword_inj: "keyword k @ s = keyword k' @ t \<Longrightarrow> k = k' \<and> s = t"
  by (cases k; cases k') simp_all

lemma spaced_no_match:
  assumes w: "list_all isSpace w1" "list_all isSpace w2" "list_all isSpace w3"
      "list_all isSpace w4" "list_all isSpace w5"
    and bad: "\<not> (k' = k \<and> w1 = [] \<and> w2 \<noteq> [] \<and> w3 = [] \<and> w4 = [] \<and> w5 = [])"
  shows "re_match (patternOf k') (spacedToken k w1 w2 w3 w4 w5 @ Y) = None"
proof (rule ccontr)
  assume "re_match (patternOf k') (spacedToken k w1 w2 w3 w4 w5 @ Y) \<noteq> None"
  then obtain r where "re_match (patternOf k') (spacedToken k w1 w2 w3 w4 w5 @ Y) = Some r"
    by auto
  from re_match_shape_elim [OF this [unfolded patternOf_shape]] obtain ws
    where ws: "ws \<noteq> []" "list_all isSpace ws"
      and eq: "spacedToken k w1 w2 w3 w4 w5 @ Y
               = (''{{'' @ keyword k') @ ws @ ''\"data_stream_name\"}}'' @ r"
    by blast
  obtain y ky where ky: "keyword k' = y # ky" "\<not> isSpace y"
    using keyword_head [of k'] by blast
  from eq have eq1: "w1 @ (keyword k @ w2 @ ''\"'' @ w3 @ ''data_stream_name'' @ w4 @ ''\"'' @ w5 @ ''}}'' @ Y)
               = y # (ky @ ws @ ''\"data_stream_name\"}}'' @ r)"
    by (simp add: spacedToken_def ky(1))
  have w1: "w1 = []"
    by (rule space_head [OF w(1) ky(2) eq1])
  from eq1 w1 ky(1) have "keyword k @ (w2 @ ''\"'' @ w3 @ ''data_stream_name'' @ w4 @ ''\"'' @ w5 @ ''}}'' @ Y)
               = keyword k' @ (ws @ ''\"data_stream_name\"}}'' @ r)"
    by simp
  from keyword_inj [OF this] have k: "k = k'"
    and eq2: "w2 @ CHR 0x22 # (w3 @ ''data_stream_name'' @ w4 @ ''\"'' @ w5 @ ''}}'' @ Y)
              = ws @ CHR 0x22 # (''data_stream_name\"}}'' @ r)"
    by simp_all
  have q: "\<not> isSpace (CHR 0x22)"
    by (simp add: isSpace_def)
  from space_run_unique [OF w(2) ws(2) q q eq2] have w2: "w2 = ws"
    and eq3: "w3 @ (''data_stream_name'' @ w4 @ ''\"'' @ w5 @ ''}}'' @ Y)
              = CHR ''d'' # (''ata_stream_name\"}}'' @ r)"
    by simp_all
  have "\<not> isSpace (CHR ''d'')"
    by (simp add: isSpace_def)
  from space_head [OF w(3) this eq3] have w3: "w3 = []" .
  from eq3 w3 have eq4: "w4 @ (''\"'' @ w5 @ ''}}'' @ Y) = CHR 0x22 # (''}}'' @ r)"
    by simp
  from space_head [OF w(4) q eq4] have w4: "w4 = []" .
  from eq4 w4 have eq5: "w5 @ (''}}'' @ Y) = CHR ''}'' # (''}'' @ r)"
    by simp
  have "\<not> isSpace (CHR ''}'')"
    by (simp add: isSpace_def)
  from space_head [OF w(5) this eq5] have w5: "w5 = []" .
  from bad k w1 w2 ws(1) w3 w4 w5 show False
    by simp
qed

lemma spaced_inert:
  assumes w: "list_all isSpace w1" "list_all isSpace w2" "list_all isSpace w3"
      "list_all isSpace w4" "list_all isSpace w5"
    and bad: "\<not> (k' = k \<and> w1 = [] \<and> w2 \<noteq> [] \<and> w3 = [] \<and> w4 = [] \<and> w5 = [])"
  shows "replaceAllString uni (patternOf k') (spacedToken k w1 w2 w3 w4 w5 @ Y) repl
         = spacedToken k w1 w2 w3 w4 w5 @ replaceAllString uni (patternOf k') Y repl"
proof -
  let ?tail = "w1 @ keyword k @ w2 @ ''\"'' @ w3 @ ''data_stream_name'' @ w4 @ ''\"'' @ w5 @ ''}}''"
  have T: "spacedToken k w1 w2 w3 w4 w5 = CHR ''{'' # CHR ''{'' # ?tail"
    by (simp add: spacedToken_def)
  have nb: "CHR ''{'' \<notin> set ?tail"
    using w [THEN isSpace_no_brace_set] by (cases k) simp_all
  obtain x tl' where tl: "?tail = x # tl'"
    by (cases ?tail) (simp_all)
  have "x \<in> set ?tail"
    unfolding tl by simp
  with nb have x: "x \<noteq> CHR ''{''"
    by blast
  have "replaceAllString uni (patternOf k') (CHR ''{'' # CHR ''{'' # ?tail @ Y) repl
        = CHR ''{'' # replaceAllString uni (patternOf k') (CHR ''{'' # ?tail @ Y) repl"
    by (rule replaceAll_miss) (use spaced_no_match [OF w bad, of Y] in \<open>simp add: T\<close>)
  also have "replaceAllString uni (patternOf k') (CHR ''{'' # ?tail @ Y) repl
        = CHR ''{'' # replaceAllString uni (patternOf k') (?tail @ Y) repl"
    unfolding patternOf_shape tl using x by (simp add: replaceAll_no_prefix)
  also have "replaceAllString uni (patternOf k') (?tail @ Y) repl
        = ?tail @ replaceAllString uni (patternOf k') Y repl"
    unfolding patternOf_shape
    using replaceAll_no_brace [OF nb, of uni "CHR ''{'' # keyword k'" _ Y repl] by simp
  finally show ?thesis
    by (simp add: T)
qed

lemma replaceAll_append_kind:
  assumes "prefix ''{{'' X"
  shows "replaceAllString uni (patternOf k) (A @ X) repl
         = replaceAllString uni (patternOf k) A repl @ replaceAllString uni (patternOf k) X repl"
  unfolding patternOf_shape by (rule replaceAll_append [OF keyword_shape assms])

lemma spaced_prefix: "prefix ''{{'' (spacedToken k w1 w2 w3 w4 w5 @ Y)"
  by (simp add: spacedToken_def)

lemma spaced_kept_pass:
  assumes w: "list_all isSpace w1" "list_all isSpace w2" "list_all isSpace w3"
      "list_all isSpace w4" "list_all isSpace w5"
    and bad: "\<not> (w1 = [] \<and> w2 \<noteq> [] \<and> w3 = [] \<and> w4 = [] \<and> w5 = [])"
  shows "replaceAllString uni (patternOf k') (A @ spacedToken k w1 w2 w3 w4 w5 @ B) repl
         = replaceAllString uni (patternOf k') A repl @ spacedToken k w1 w2 w3 w4 w5
           @ replaceAllString uni (patternOf k') B repl"
proof -
  from bad have bad': "\<not> (k' = k \<and> w1 = [] \<and> w2 \<noteq> [] \<and> w3 = [] \<and> w4 = [] \<and> w5 = [])"
    by blast
  show ?thesis
    by (simp only: replaceAll_append_kind [OF spaced_prefix] spaced_inert [OF w bad'])
qed

text \<open>
  Claim C10. A token is matched by the pattern of its kind exactly when its only white
  space is a non-empty run between keyword and name, and then the pass replaces it. A token
  with white space after the opening braces, inside the quotes or before the closing
  braces, or with none between keyword and name, is left as it is by the single-entity
  rewrite, wherever it stands in the document.
\<close>

theorem spaced_token_only_middle:
  assumes w: "list_all isSpace w1" "list_all isSpace w2" "list_all isSpace w3"
      "list_all isSpace w4" "list_all isSpace w5"
  shows "(re_match (patternOf k) (spacedToken k w1 w2 w3 w4 w5 @ rest) \<noteq> None
            \<longleftrightarrow> w1 = [] \<and> w2 \<noteq> [] \<and> w3 = [] \<and> w4 = [] \<and> w5 = [])
       \<and> (w2 \<noteq> [] \<longrightarrow>
            replaceAllString uni (patternOf k) (spacedToken k [] w2 [] [] [] @ rest) repl
            = expand uni repl (spacedToken k [] w2 [] [] [])
              @ replaceAllString uni (patternOf k) rest repl)
       \<and> (\<not> (w1 = [] \<and> w2 \<noteq> [] \<and> w3 = [] \<and> w4 = [] \<and> w5 = []) \<longrightarrow>
            applyDataStreamPlaceholders uni (pre @ spacedToken k w1 w2 w3 w4 w5 @ post) [e]
            = applyDataStreamPlaceholders uni pre [e] @ spacedToken k w1 w2 w3 w4 w5
              @ applyDataStreamPlaceholders uni post [e])"
proof (intro conjI impI)
  show "re_match (patternOf k) (spacedToken k w1 w2 w3 w4 w5 @ rest) \<noteq> None
        \<longleftrightarrow> w1 = [] \<and> w2 \<noteq> [] \<and> w3 = [] \<and> w4 = [] \<and> w5 = []"
  proof
    assume m: "re_match (patternOf k) (spacedToken k w1 w2 w3 w4 w5 @ rest) \<noteq> None"
    show "w1 = [] \<and> w2 \<noteq> [] \<and> w3 = [] \<and> w4 = [] \<and> w5 = []"
    proof (rule ccontr)
      assume "\<not> (w1 = [] \<and> w2 \<noteq> [] \<and> w3 = [] \<and> w4 = [] \<and> w5 = [])"
      then have "\<not> (k = k \<and> w1 = [] \<and> w2 \<noteq> [] \<and> w3 = [] \<and> w4 = [] \<and> w5 = [])"
        by blast
      from spaced_no_match [OF w this, of rest] m show False
        by simp
    qed
  next
    assume good: "w1 = [] \<and> w2 \<noteq> [] \<and> w3 = [] \<and> w4 = [] \<and> w5 = []"
    have b: "''\"data_stream_name\"}}'' \<noteq> []" "\<not> isSpace (hd ''\"data_stream_name\"}}'')"
      by (simp_all add: isSpace_def)
    from good have w2: "w2 \<noteq> []"
      by blast
    have "re_match [Lit (''{{'' @ keyword k), SpacePlus, Lit ''\"data_stream_name\"}}'']
            ((''{{'' @ keyword k) @ w2 @ ''\"data_stream_name\"}}'' @ rest) = Some rest"
      by (rule re_match_shape_intro [OF b w2 w(2)])
    with good show "re_match (patternOf k) (spacedToken k w1 w2 w3 w4 w5 @ rest) \<noteq> None"
      unfolding patternOf_shape by (simp add: spacedToken_def)
  qed
next
  assume w2: "w2 \<noteq> []"
  have "spacedToken k [] w2 [] [] [] = genericPlaceholder k w2"
    by (simp add: spacedToken_def genericPlaceholder_def)
  then show "replaceAllString uni (patternOf k) (spacedToken k [] w2 [] [] [] @ rest) repl
             = expand uni repl (spacedToken k [] w2 [] [] [])
               @ replaceAllString uni (patternOf k) rest repl"
    by (simp only: replaceAll_generic_hit [OF w2 w(2)])
next
  assume bad: "\<not> (w1 = [] \<and> w2 \<noteq> [] \<and> w3 = [] \<and> w4 = [] \<and> w5 = [])"
  have one: "applyDataStreamPlaceholders uni d [e]
             = replaceAllString uni (patternOf Event)
                 (replaceAllString uni (patternOf Fields) d (fieldsPlaceholder e))
                 (eventPlaceholder e)" for d
    by (simp add: applyDataStreamPlaceholders_def)
  show "applyDataStreamPlaceholders uni (pre @ spacedToken k w1 w2 w3 w4 w5 @ post) [e]
        = applyDataStreamPlaceholders uni pre [e] @ spacedToken k w1 w2 w3 w4 w5
          @ applyDataStreamPlaceholders uni post [e]"
    by (simp only: one spaced_kept_pass [OF w bad])
qed

theorem spaced_token_only_middle_witness:
  "re_match (patternOf Fields) (spacedToken Fields [] ''  '' [] [] [] @ ''x'') \<noteq> None
   \<and> re_match (patternOf Fields) (spacedToken Fields '' '' '' '' [] [] '' '' @ ''x'') = None
   \<and> replaceAllString (\<lambda>_. 0) (patternOf Fields) (spacedToken Fields [] ''  '' [] [] [] @ ''x'')
         (fieldsPlaceholder ''logs'')
       = expand (\<lambda>_. 0) (fieldsPlaceholder ''logs'') (spacedToken Fields [] ''  '' [] [] [])
         @ replaceAllString (\<lambda>_. 0) (patternOf Fields) ''x'' (fieldsPlaceholder ''logs'')
   \<and> applyDataStreamPlaceholders (\<lambda>_. 0)
         (''a '' @ spacedToken Fields '' '' '' '' [] [] '' '' @ '' b'') [''logs'']
       = applyDataStreamPlaceholders (\<lambda>_. 0) ''a '' [''logs'']
         @ spacedToken Fields '' '' '' '' [] [] '' ''
         @ applyDataStreamPlaceholders (\<lambda>_. 0) '' b'' [''logs'']"
proof -
  have s0: "list_all isSpace []" and s1: "list_all isSpace '' ''" and s2: "list_all isSpace ''  ''"
    by (simp_all add: isSpace_def)
  have ne: "''  '' \<noteq> []" and bad: "\<not> ('' '' = [] \<and> '' '' \<noteq> [] \<and> [] = [] \<and> [] = [] \<and> '' '' = [])"
    by simp_all
  note good = spaced_token_only_middle [OF s0 s2 s0 s0 s0, of Fields "''x''" "\<lambda>_. 0"
      "fieldsPlaceholder ''logs''" "[]" "[]" "[]"]
  note spaced = spaced_token_only_middle [OF s1 s1 s0 s0 s1, of Fields "''x''" "\<lambda>_. 0"
      "fieldsPlaceholder ''logs''" "''a ''" "'' b''" "''logs''"]
  from good ne have g1: "re_match (patternOf Fields) (spacedToken Fields [] ''  '' [] [] [] @ ''x'') \<noteq> None"
    by blast
  from good ne have g2: "replaceAllString (\<lambda>_. 0) (patternOf Fields) (spacedToken Fields [] ''  '' [] [] [] @ ''x'')
         (fieldsPlaceholder ''logs'')
       = expand (\<lambda>_. 0) (fieldsPlaceholder ''logs'') (spacedToken Fields [] ''  '' [] [] [])
         @ replaceAllString (\<lambda>_. 0) (patternOf Fields) ''x'' (fieldsPlaceholder ''logs'')"
    by blast
  from spaced bad have b1: "re_match (patternOf Fields) (spacedToken Fields '' '' '' '' [] [] '' '' @ ''x'') = None"
    by blast
  from spaced bad have b2: "applyDataStreamPlaceholders (\<lambda>_. 0)
         (''a '' @ spacedToken Fields '' '' '' '' [] [] '' '' @ '' b'') [''logs'']
       = applyDataStreamPlaceholders (\<lambda>_. 0) ''a '' [''logs'']
         @ spacedToken Fields '' '' '' '' [] [] '' ''
         @ applyDataStreamPlaceholders (\<lambda>_. 0) '' b'' [''logs'']"
    by blast
  from g1 b1 g2 b2 show ?thesis
    by (intro conjI)
qed

section \<open>The matcher on two equal sequences\<close>

text \<open>
  On a sequence compared with itself the longest match found by the two loops lies on the
  diagonal, also when popular lines were dropped from the index. \<open>diag B a c\<close> is the
  length of the run of indexed lines that ends at \<open>c\<close>. The invariant \<open>rowInv\<close> after the
  rows below \<open>i\<close>: no entry of \<open>j2len\<close> exceeds the run on the diagonal at the smaller of
  its column and \<open>i - 1\<close>, the entry at \<open>i - 1\<close> is that run, the best length is at
  least every run seen so far, and the best match starts at the same index on both sides
  and ends within the rows seen.
\<close>

fun diag :: "(string \<Rightarrow> nat list) \<Rightarrow> string list \<Rightarrow> nat \<Rightarrow> nat" where
  "diag B a 0 = (if B (a ! 0) = [] then 0 else 1)"
| "diag B a (Suc c) = (if B (a ! Suc c) = [] then 0 else diag B a c + 1)"

definition dg :: "(string \<Rightarrow> nat list) \<Rightarrow> string list \<Rightarrow> int \<Rightarrow> nat" where
  "dg B a x = (if x < 0 then 0 else diag B a (nat x))"

lemma diag_le: "diag B a c \<le> c + 1"
  by (induction c) auto

lemma diag_step: "B (a ! c) \<noteq> [] \<Longrightarrow> diag B a c = dg B a (int c - 1) + 1"
  by (cases c) (auto simp: dg_def nat_diff_distrib)

lemma diag_zero: "B (a ! c) = [] \<Longrightarrow> diag B a c = 0"
  by (cases c) auto

lemma dg_int: "dg B a (int c) = diag B a c"
  by (simp add: dg_def)

lemma scanRow_append:
  "\<forall>j \<in> set xs. j < bhi
   \<Longrightarrow> scanRow i 0 bhi j2len (xs @ ys) st = scanRow i 0 bhi j2len ys (scanRow i 0 bhi j2len xs st)"
proof (induction xs arbitrary: st)
  case Nil
  then show ?case by simp
next
  case (Cons x xs)
  obtain m bi bj bs where st: "st = (m, bi, bj, bs)" by (cases st)
  from Cons show ?case
    by (simp add: st Let_def)
qed

lemma scanRow_quiet:
  "\<forall>j \<in> set js. j < bhi \<and> j2len (int j - 1) + 1 \<le> bestsize
   \<Longrightarrow> scanRow i 0 bhi j2len js (nm, besti, bestj, bestsize)
       = (fold (\<lambda>j m. m(int j := j2len (int j - 1) + 1)) js nm, besti, bestj, bestsize)"
  by (induction js arbitrary: nm) (simp_all add: Let_def)

lemma fold_upd:
  "fold (\<lambda>j m. m(int j := f j)) js nm x
   = (if \<exists>j \<in> set js. x = int j then f (nat x) else nm x)"
  by (induction js arbitrary: nm) auto

definition indexed :: "(string \<Rightarrow> nat list) \<Rightarrow> string list \<Rightarrow> nat \<Rightarrow> bool" where
  "indexed B a n \<longleftrightarrow>
     (\<forall>i < n. B (a ! i) = [] \<or> B (a ! i) = filter (\<lambda>j. a ! j = a ! i) [0 ..< n])"

definition rowInv ::
  "(string \<Rightarrow> nat list) \<Rightarrow> string list \<Rightarrow> nat \<Rightarrow> (int \<Rightarrow> nat) \<times> Match \<Rightarrow> bool" where
  "rowInv B a i st \<longleftrightarrow>
     (case st of (j2len, besti, bestj, bestsize) \<Rightarrow>
        (\<forall>x. j2len x \<le> dg B a (min x (int i - 1)))
        \<and> j2len (int i - 1) = dg B a (int i - 1)
        \<and> (\<forall>c < i. diag B a c \<le> bestsize)
        \<and> besti = bestj \<and> besti + bestsize \<le> i)"

lemma chainB_indexed: "indexed (chainB a) a (length a)"
  by (simp add: indexed_def chainB_def Let_def)

lemma filter_split_at:
  assumes "i < n"
  shows "filter (\<lambda>j. a ! j = a ! i) [0 ..< n]
         = filter (\<lambda>j. a ! j = a ! i) [0 ..< i] @ i # filter (\<lambda>j. a ! j = a ! i) [Suc i ..< n]"
proof -
  from assms have "[0 ..< n] = [0 ..< i] @ i # [Suc i ..< n]"
    by (metis le0 less_imp_le_nat upt_add_eq_append upt_conv_Cons le_add_diff_inverse)
  then show ?thesis by simp
qed

lemma row_step:
  assumes ix: "indexed B a n" and i: "i < n"
    and inv: "rowInv B a i (j2len, best)"
  shows "rowInv B a (Suc i) (scanRow i 0 n j2len (B (a ! i)) (\<lambda>_. 0, best))"
proof -
  obtain besti bestj bestsize where best: "best = (besti, bestj, bestsize)"
    by (cases best)
  from inv have J1: "\<And>x. j2len x \<le> dg B a (min x (int i - 1))"
    and J1': "j2len (int i - 1) = dg B a (int i - 1)"
    and J2: "\<And>c. c < i \<Longrightarrow> diag B a c \<le> bestsize"
    and J3: "besti = bestj" and J4: "besti + bestsize \<le> i"
    by (simp_all add: rowInv_def best)
  show ?thesis
  proof (cases "B (a ! i) = []")
    case True
    have "diag B a c \<le> bestsize" if "c < Suc i" for c
      using that J2 [of c] diag_zero [of B a i, OF True] by (cases "c = i") auto
    with True J3 J4 show ?thesis
      by (simp add: rowInv_def best dg_int diag_zero [of B a i, OF True])
  next
    case False
    let ?lt = "filter (\<lambda>j. a ! j = a ! i) [0 ..< i]"
    let ?gt = "filter (\<lambda>j. a ! j = a ! i) [Suc i ..< n]"
    let ?f = "\<lambda>j. j2len (int j - 1) + 1"
    let ?kd = "j2len (int i - 1) + 1"
    from ix i False have js: "B (a ! i) = ?lt @ i # ?gt"
      using filter_split_at [OF i, of a] by (auto simp: indexed_def)
    have same: "B (a ! j) \<noteq> []" if "a ! j = a ! i" for j
      using that False by simp
    have kd: "?kd = diag B a i"
      by (simp add: diag_step [of B a i, OF False] J1')
    have lt_quiet: "\<forall>j \<in> set ?lt. j < n \<and> ?f j \<le> bestsize"
    proof
      fix j assume "j \<in> set ?lt"
      then have j: "j < i" and aj: "a ! j = a ! i" by auto
      have "j2len (int j - 1) \<le> dg B a (min (int j - 1) (int i - 1))"
        by (rule J1)
      also from j have "min (int j - 1) (int i - 1) = int j - 1" by simp
      finally have "?f j \<le> diag B a j"
        by (simp add: diag_step [of B a j, OF same [OF aj]])
      also have "\<dots> \<le> bestsize" by (rule J2 [OF j])
      finally show "j < n \<and> ?f j \<le> bestsize" using j i by simp
    qed
    define bs' where "bs' = max bestsize ?kd"
    define best' where "best' = (if ?kd > bestsize then (i + 1 - ?kd, i + 1 - ?kd, ?kd)
                                 else (besti, bestj, bestsize))"
    have gt_quiet: "\<forall>j \<in> set ?gt. j < n \<and> ?f j \<le> bs'"
    proof
      fix j assume "j \<in> set ?gt"
      then have j: "i < j" "j < n" by auto
      have "j2len (int j - 1) \<le> dg B a (min (int j - 1) (int i - 1))"
        by (rule J1)
      also from j have "min (int j - 1) (int i - 1) = int i - 1" by simp
      finally have "?f j \<le> ?kd" by (simp add: J1')
      then show "j < n \<and> ?f j \<le> bs'" using j by (simp add: bs'_def)
    qed
    obtain bi' bj' where best'_eq: "best' = (bi', bj', bs')" and eq': "bi' = bj'"
      and sum': "bi' + bs' \<le> Suc i"
    proof (cases "?kd > bestsize")
      case True
      have "?kd \<le> i + 1" unfolding kd by (rule diag_le)
      with True show ?thesis
        by (intro that [of "i + 1 - ?kd" "i + 1 - ?kd"]) (simp_all add: best'_def bs'_def)
    next
      case False
      with J3 J4 show ?thesis
        by (intro that [of besti bestj]) (simp_all add: best'_def bs'_def)
    qed
    let ?m1 = "fold (\<lambda>j m. m(int j := ?f j)) ?lt (\<lambda>_. 0)"
    let ?m2 = "?m1(int i := ?kd)"
    define m3 where "m3 = fold (\<lambda>j m. m(int j := ?f j)) ?gt ?m2"
    have ltn: "\<forall>j \<in> set ?lt. j < n" using lt_quiet by blast
    have "scanRow i 0 n j2len (B (a ! i)) (\<lambda>_. 0, best)
          = scanRow i 0 n j2len (i # ?gt) (scanRow i 0 n j2len ?lt (\<lambda>_. 0, besti, bestj, bestsize))"
      unfolding js best by (rule scanRow_append [OF ltn])
    also have "\<dots> = scanRow i 0 n j2len (i # ?gt) (?m1, besti, bestj, bestsize)"
      by (simp only: scanRow_quiet [OF lt_quiet])
    also have "\<dots> = scanRow i 0 n j2len ?gt (?m2, best')"
      using i by (simp add: Let_def best'_def)
    also have "\<dots> = (m3, bi', bj', bs')"
      unfolding best'_eq m3_def by (rule scanRow_quiet [OF gt_quiet])
    finally have res: "scanRow i 0 n j2len (B (a ! i)) (\<lambda>_. 0, best) = (m3, bi', bj', bs')" .
    have m3: "m3 x = (if \<exists>j \<in> set (B (a ! i)). x = int j then ?f (nat x) else 0)" for x
      unfolding js m3_def by (auto simp: fold_upd)
    have N1: "m3 x \<le> dg B a (min x (int (Suc i) - 1))" for x
    proof (cases "\<exists>j \<in> set (B (a ! i)). x = int j")
      case False
      then show ?thesis by (simp add: m3)
    next
      case True
      then obtain j where jin: "j \<in> set (B (a ! i))" and x: "x = int j" by blast
      from jin have aj: "a ! j = a ! i" unfolding js by auto
      have le: "j2len (int j - 1) \<le> dg B a (min (int j - 1) (int i - 1))"
        by (rule J1)
      show ?thesis
      proof (cases "j \<le> i")
        case True
        then have "min (int j - 1) (int i - 1) = int j - 1" by simp
        with le have "?f j \<le> diag B a j"
          by (simp add: diag_step [of B a j, OF same [OF aj]])
        with True jin show ?thesis
          by (simp add: m3 x dg_int Bex_def) 
      next
        case False
        then have "min (int j - 1) (int i - 1) = int i - 1" by simp
        with le have "?f j \<le> diag B a i"
          by (simp add: kd [symmetric] J1')
        with False jin show ?thesis
          by (simp add: m3 x dg_int Bex_def min_def)
      qed
    qed
    have iin: "i \<in> set (B (a ! i))" unfolding js by simp
    have N1': "m3 (int (Suc i) - 1) = dg B a (int (Suc i) - 1)"
      using iin kd by (simp add: m3 dg_int Bex_def)
    have N2: "diag B a c \<le> bs'" if "c < Suc i" for c
    proof (cases "c = i")
      case True
      then show ?thesis by (simp add: kd [symmetric] bs'_def)
    next
      case False
      with that have "c < i" by simp
      from J2 [OF this] show ?thesis by (simp add: bs'_def)
    qed
    show ?thesis
      unfolding res rowInv_def using N1 N1' N2 eq' sum' by simp
  qed
qed

lemma scanRows_inv:
  assumes "indexed B a n"
  shows "i \<le> n \<Longrightarrow> rowInv B a i st \<Longrightarrow> rowInv B a n (scanRows a B 0 n [i ..< n] st)"
proof (induction "n - i" arbitrary: i st)
  case 0
  then show ?case by simp
next
  case (Suc d)
  then have i: "i < n" by simp
  obtain j2len best where st: "st = (j2len, best)" by (cases st)
  from i have upt: "[i ..< n] = i # [Suc i ..< n]"
    by (rule upt_conv_Cons)
  have "rowInv B a (Suc i) (scanRow i 0 n j2len (B (a ! i)) (\<lambda>_. 0, best))"
    by (rule row_step [OF assms i]) (use Suc.prems st in simp)
  moreover from Suc.hyps i have "d = n - Suc i" "Suc i \<le> n" by simp_all
  ultimately have "rowInv B a n
      (scanRows a B 0 n [Suc i ..< n] (scanRow i 0 n j2len (B (a ! i)) (\<lambda>_. 0, best)))"
    using Suc.hyps(1) by blast
  then show ?case
    by (simp add: upt st)
qed

lemma rowInv_start: "rowInv B a 0 (\<lambda>_. 0, 0, 0, 0)"
  by (simp add: rowInv_def dg_def)

lemma extendBack_same:
  "extendBack a a (\<lambda>s. \<not> isBJunk s) 0 0 (d, d, s) = (0, 0, s + d)"
proof (induction d arbitrary: s)
  case 0
  then show ?case by (simp add: extendBack.simps)
next
  case (Suc d)
  have "extendBack a a (\<lambda>s. \<not> isBJunk s) 0 0 (Suc d, Suc d, s)
        = extendBack a a (\<lambda>s. \<not> isBJunk s) 0 0 (d, d, s + 1)"
    by (subst extendBack.simps) (simp add: isBJunk_def)
  with Suc show ?case by simp
qed

lemma extendForward_same:
  "m \<le> n \<Longrightarrow> extendForward a a (\<lambda>s. \<not> isBJunk s) n n (0, 0, m) = (0, 0, n)"
proof (induction "n - m" arbitrary: m)
  case 0
  then show ?case by (simp add: extendForward.simps)
next
  case (Suc d)
  then have m: "m < n" by simp
  then have "extendForward a a (\<lambda>s. \<not> isBJunk s) n n (0, 0, m)
        = extendForward a a (\<lambda>s. \<not> isBJunk s) n n (0, 0, m + 1)"
    by (subst extendForward.simps) (simp add: isBJunk_def)
  moreover from Suc.hyps m have "d = n - (m + 1)" "m + 1 \<le> n" by simp_all
  ultimately show ?case using Suc.hyps(1) by simp
qed

lemma extendBack_junk: "extendBack a b isBJunk alo blo best = best"
  by (cases best) (simp add: extendBack.simps isBJunk_def)

lemma extendForward_junk: "extendForward a b isBJunk ahi bhi best = best"
  by (cases best) (simp add: extendForward.simps isBJunk_def)

lemma findLongestMatch_same:
  "findLongestMatch a a (chainB a) 0 (length a) 0 (length a) = (0, 0, length a)"
proof -
  let ?n = "length a"
  obtain j2len besti bestj bestsize
    where scan: "scanRows a (chainB a) 0 ?n [0 ..< ?n] (\<lambda>_. 0, 0, 0, 0)
                 = (j2len, besti, bestj, bestsize)"
    by (cases "scanRows a (chainB a) 0 ?n [0 ..< ?n] (\<lambda>_. 0, 0, 0, 0)") auto
  have "rowInv (chainB a) a ?n (scanRows a (chainB a) 0 ?n [0 ..< ?n] (\<lambda>_. 0, 0, 0, 0))"
    by (rule scanRows_inv [OF chainB_indexed _ rowInv_start]) simp
  then have eq: "besti = bestj" and le: "besti + bestsize \<le> ?n"
    by (simp_all add: scan rowInv_def)
  from le have "bestsize + bestj \<le> ?n"
    by (simp add: eq [symmetric] add.commute)
  then show ?thesis
    by (simp add: findLongestMatch_def scan eq extendBack_same extendForward_same
        extendBack_junk extendForward_junk)
qed

lemma matchBlocks_same:
  "matchBlocks a a (chainB a) 0 (length a) 0 (length a) []
   = Some (if length a > 0 then [(0, 0, length a)] else [])"
  by (subst matchBlocks.simps) (simp add: findLongestMatch_same)

lemma getOpCodes_same:
  "getOpCodes a a = Some (if length a > 0 then [OpCode CHR ''e'' 0 (length a) 0 (length a)] else [])"
  by (simp add: getOpCodes_def getMatchingBlocks_def matchBlocks_same)

lemma getGroupedOpCodes_same: "getGroupedOpCodes a a 3 = Some []"
  by (simp add: getGroupedOpCodes_def getOpCodes_same Let_def)

lemma getUnifiedDiffString_same: "getUnifiedDiffString a a fromFile toFile 3 = Some []"
  by (simp add: getUnifiedDiffString_def getGroupedOpCodes_same)

text \<open>
  Claim C7. For every path and every document, the patch of the document against itself
  is the empty string: the matcher finds one equal block over all lines, the grouping cuts
  it to context and drops the group that holds no change, and nothing is written, not even
  the two file lines.
\<close>

theorem diff_identical_empty: "generatePatch p A A = Some []"
  by (simp add: generatePatch_def Let_def getUnifiedDiffString_same)

end
